theory Spec2Isabelle
  imports Main "HOL-Library.Word"
begin

unbundle bit_operations_syntax

section \<open>The digest: crypto/sha256 and encoding/hex\<close>

text \<open>
  \<^verbatim>\<open>makeHash\<close> calls \<^verbatim>\<open>sha256.Sum256\<close> and \<^verbatim>\<open>hex.EncodeToString\<close> of the Go standard
  library. Both are modelled in full (SHA-256 as in FIPS 180-4 and Go's generic block
  function), so that the digests of the repository's test files can be computed.
  Go strings and byte slices are sequences of bytes: \<open>string\<close> (a \<open>char list\<close>) for
  names and tokens, \<open>byte list\<close> for file contents.
\<close>

type_synonym byte = "8 word"
type_synonym uint32 = "32 word"
type_synonym uint64 = "64 word"

type_synonym regs =
  "uint32 \<times> uint32 \<times> uint32 \<times> uint32 \<times> uint32 \<times> uint32 \<times> uint32 \<times> uint32"

definition RotateRight32 :: "uint32 \<Rightarrow> nat \<Rightarrow> uint32" where
  "RotateRight32 x k = (drop_bit k x) OR (push_bit (32 - k) x)"

text \<open>The round constants \<^verbatim>\<open>_K\<close>, eight rounds to a row.\<close>

definition K_row0 :: "uint32 list" where
  "K_row0 = [0x428a2f98, 0x71374491, 0xb5c0fbcf, 0xe9b5dba5, 0x3956c25b, 0x59f111f1, 0x923f82a4, 0xab1c5ed5]"

definition K_row1 :: "uint32 list" where
  "K_row1 = [0xd807aa98, 0x12835b01, 0x243185be, 0x550c7dc3, 0x72be5d74, 0x80deb1fe, 0x9bdc06a7, 0xc19bf174]"

definition K_row2 :: "uint32 list" where
  "K_row2 = [0xe49b69c1, 0xefbe4786, 0x0fc19dc6, 0x240ca1cc, 0x2de92c6f, 0x4a7484aa, 0x5cb0a9dc, 0x76f988da]"

definition K_row3 :: "uint32 list" where
  "K_row3 = [0x983e5152, 0xa831c66d, 0xb00327c8, 0xbf597fc7, 0xc6e00bf3, 0xd5a79147, 0x06ca6351, 0x14292967]"

definition K_row4 :: "uint32 list" where
  "K_row4 = [0x27b70a85, 0x2e1b2138, 0x4d2c6dfc, 0x53380d13, 0x650a7354, 0x766a0abb, 0x81c2c92e, 0x92722c85]"

definition K_row5 :: "uint32 list" where
  "K_row5 = [0xa2bfe8a1, 0xa81a664b, 0xc24b8b70, 0xc76c51a3, 0xd192e819, 0xd6990624, 0xf40e3585, 0x106aa070]"

definition K_row6 :: "uint32 list" where
  "K_row6 = [0x19a4c116, 0x1e376c08, 0x2748774c, 0x34b0bcb5, 0x391c0cb3, 0x4ed8aa4a, 0x5b9cca4f, 0x682e6ff3]"

definition K_row7 :: "uint32 list" where
  "K_row7 = [0x748f82ee, 0x78a5636f, 0x84c87814, 0x8cc70208, 0x90befffa, 0xa4506ceb, 0xbef9a3f7, 0xc67178f2]"

definition K256 :: "uint32 list" where
  "K256 = K_row0 @ K_row1 @ K_row2 @ K_row3 @ K_row4 @ K_row5 @ K_row6 @ K_row7"

definition init256 :: regs where
  "init256 = (0x6a09e667, 0xbb67ae85, 0x3c6ef372, 0xa54ff53a,
              0x510e527f, 0x9b05688c, 0x1f83d9ab, 0x5be0cd19)"

text \<open>The sixteen big-endian words of a 64-byte chunk.\<close>

fun be_words :: "byte list \<Rightarrow> uint32 list" where
  "be_words (a # b # c # d # p) =
     (push_bit 24 (ucast a) OR push_bit 16 (ucast b) OR push_bit 8 (ucast c) OR ucast d)
       # be_words p"
| "be_words _ = []"

text \<open>The message schedule: \<open>schedule 48\<close> extends the sixteen words to sixty-four.\<close>

fun schedule :: "nat \<Rightarrow> uint32 list \<Rightarrow> uint32 list" where
  "schedule 0 w = w"
| "schedule (Suc n) w =
     (let i = length w;
          v1 = w ! (i - 2);
          t1 = RotateRight32 v1 17 XOR RotateRight32 v1 19 XOR drop_bit 10 v1;
          v2 = w ! (i - 15);
          t2 = RotateRight32 v2 7 XOR RotateRight32 v2 18 XOR drop_bit 3 v2
      in schedule n (w @ [t1 + w ! (i - 7) + t2 + w ! (i - 16)]))"

fun round256 :: "uint32 \<times> uint32 \<Rightarrow> regs \<Rightarrow> regs" where
  "round256 (k, wi) (a, b, c, d, e, f, g, h) =
     (let t1 = h + (RotateRight32 e 6 XOR RotateRight32 e 11 XOR RotateRight32 e 25)
                 + ((e AND f) XOR (NOT e AND g)) + k + wi;
          t2 = (RotateRight32 a 2 XOR RotateRight32 a 13 XOR RotateRight32 a 22)
                 + ((a AND b) XOR (a AND c) XOR (b AND c))
      in (t1 + t2, a, b, c, d + t1, e, f, g))"

fun add_regs :: "regs \<Rightarrow> regs \<Rightarrow> regs" where
  "add_regs (h0, h1, h2, h3, h4, h5, h6, h7) (a, b, c, d, e, f, g, h) =
     (h0 + a, h1 + b, h2 + c, h3 + d, h4 + e, h5 + f, h6 + g, h7 + h)"

definition block :: "regs \<Rightarrow> byte list \<Rightarrow> regs" where
  "block hs p = add_regs hs (fold round256 (zip K256 (schedule 48 (be_words p))) hs)"

fun blocks :: "nat \<Rightarrow> regs \<Rightarrow> byte list \<Rightarrow> regs" where
  "blocks 0 hs p = hs"
| "blocks (Suc n) hs p = blocks n (block hs (take 64 p)) (drop 64 p)"

definition BEPutUint32 :: "uint32 \<Rightarrow> byte list" where
  "BEPutUint32 v = [ucast (drop_bit 24 v), ucast (drop_bit 16 v), ucast (drop_bit 8 v), ucast v]"

definition BEPutUint64 :: "uint64 \<Rightarrow> byte list" where
  "BEPutUint64 v =
     [ucast (drop_bit 56 v), ucast (drop_bit 48 v), ucast (drop_bit 40 v), ucast (drop_bit 32 v),
      ucast (drop_bit 24 v), ucast (drop_bit 16 v), ucast (drop_bit 8 v), ucast v]"

text \<open>
  The padding written by \<^verbatim>\<open>checkSum\<close>: a one bit, zeros up to 56 bytes modulo 64, and the
  length of the message in bits as a \<^verbatim>\<open>uint64\<close>.
\<close>

definition padding :: "nat \<Rightarrow> byte list" where
  "padding n =
     (let t = (if n mod 64 < 56 then 56 - n mod 64 else 64 + 56 - n mod 64)
      in 0x80 # replicate (t - 1) 0 @ BEPutUint64 (push_bit 3 (of_nat n)))"

definition Sum256 :: "byte list \<Rightarrow> byte list" where
  "Sum256 b =
     (let p = b @ padding (length b) in
      (case blocks (length p div 64) init256 p of
         (h0, h1, h2, h3, h4, h5, h6, h7) \<Rightarrow>
           BEPutUint32 h0 @ BEPutUint32 h1 @ BEPutUint32 h2 @ BEPutUint32 h3 @
           BEPutUint32 h4 @ BEPutUint32 h5 @ BEPutUint32 h6 @ BEPutUint32 h7))"

definition hextable :: string where
  "hextable = ''0123456789abcdef''"

fun EncodeToString :: "byte list \<Rightarrow> string" where
  "EncodeToString [] = []"
| "EncodeToString (v # src) =
     hextable ! unat (drop_bit 4 v) # hextable ! unat (v AND 0x0f) # EncodeToString src"

text \<open>\<^verbatim>\<open>[]byte(s)\<close>: the bytes of a string, used to write file contents down.\<close>

definition bytes :: "string \<Rightarrow> byte list" where
  "bytes s = map (\<lambda>c. of_nat (of_char c)) s"

text \<open>A digest token: sixty-four lowercase hexadecimal characters.\<close>

definition is_digest :: "string \<Rightarrow> bool" where
  "is_digest d \<longleftrightarrow> length d = 64 \<and> (\<forall>c \<in> set d. c \<in> set hextable)"

section \<open>path/filepath: Ext\<close>

text \<open>
  \<^verbatim>\<open>filepath.Ext\<close> scans the path from its end, down to the last path separator, for a
  dot, and returns the suffix that starts there:
  \<^verbatim>\<open>for i := len(path) - 1; i >= 0 && !os.IsPathSeparator(path[i]); i-- {
      if path[i] == '.' { return path[i:] } }
  return ""\<close>
  \<open>Ext_from path (Suc i)\<close> is the loop at index \<open>i\<close>. The path separator is the slash
  (\<^verbatim>\<open>os.IsPathSeparator\<close> on Unix; the names of an \<^verbatim>\<open>fs.FS\<close> are slash-separated).
\<close>

definition IsPathSeparator :: "char \<Rightarrow> bool" where
  "IsPathSeparator c \<longleftrightarrow> c = CHR ''/''"

fun Ext_from :: "string \<Rightarrow> nat \<Rightarrow> string" where
  "Ext_from path 0 = []"
| "Ext_from path (Suc i) =
     (if IsPathSeparator (path ! i) then []
      else if path ! i = CHR ''.'' then drop i path
      else Ext_from path i)"

definition Ext :: "string \<Rightarrow> string" where
  "Ext path = Ext_from path (length path)"

text \<open>
  Go's slice expressions \<^verbatim>\<open>s[:j]\<close> and \<^verbatim>\<open>s[i:]\<close> panic when the bound is out of range;
  \<open>None\<close> is the panic.
\<close>

definition slice_to :: "string \<Rightarrow> int \<Rightarrow> string option" where
  "slice_to s j = (if 0 \<le> j \<and> j \<le> int (length s) then Some (take (nat j) s) else None)"

definition slice_from :: "string \<Rightarrow> int \<Rightarrow> string option" where
  "slice_from s i = (if 0 \<le> i \<and> i \<le> int (length s) then Some (drop (nat i) s) else None)"

abbreviation len :: "string \<Rightarrow> int" where
  "len s \<equiv> int (length s)"

section \<open>The backing store: io/fs\<close>

text \<open>
  The adapter wraps an \<^verbatim>\<open>fs.FS\<close>. The model takes the backing file tree as a map from
  the paths of its regular files to their contents. Following the contract of
  \<^verbatim>\<open>fs.FS\<close>, a name that is not a valid path is rejected, and a valid name that is no
  file of the tree is reported as not existing; both calls answer with a
  \<^verbatim>\<open>*fs.PathError\<close>. Directories are not modelled: a path exists in the backing store
  when it is the valid path of a file. A file handle is modelled by the bytes that
  reading it yields.
\<close>

type_synonym store = "string \<rightharpoonup> byte list"

datatype errno = ErrInvalid | ErrNotExist

record PathError =
  Op :: string
  Path :: string
  Err :: errno

datatype File = File (contents: "byte list")

text \<open>
  \<^verbatim>\<open>utf8.ValidString\<close>: the string is a sequence of well-formed UTF-8 encodings. After a
  leading byte, the bytes that have to follow are awaited, each within its range; the
  ranges of the second byte exclude the overlong encodings, the surrogates and the code
  points above U+10FFFF. \<open>None\<close> is a string found invalid.
\<close>

fun utf8_step :: "(nat \<times> nat) list option \<Rightarrow> nat \<Rightarrow> (nat \<times> nat) list option" where
  "utf8_step None x = None"
| "utf8_step (Some []) x =
     (if x < 0x80 then Some []
      else if 0xC2 \<le> x \<and> x \<le> 0xDF then Some [(0x80, 0xBF)]
      else if x = 0xE0 then Some [(0xA0, 0xBF), (0x80, 0xBF)]
      else if 0xE1 \<le> x \<and> x \<le> 0xEC then Some [(0x80, 0xBF), (0x80, 0xBF)]
      else if x = 0xED then Some [(0x80, 0x9F), (0x80, 0xBF)]
      else if 0xEE \<le> x \<and> x \<le> 0xEF then Some [(0x80, 0xBF), (0x80, 0xBF)]
      else if x = 0xF0 then Some [(0x90, 0xBF), (0x80, 0xBF), (0x80, 0xBF)]
      else if 0xF1 \<le> x \<and> x \<le> 0xF3 then Some [(0x80, 0xBF), (0x80, 0xBF), (0x80, 0xBF)]
      else if x = 0xF4 then Some [(0x80, 0x8F), (0x80, 0xBF), (0x80, 0xBF)]
      else None)"
| "utf8_step (Some ((lo, hi) # awaited)) x =
     (if lo \<le> x \<and> x \<le> hi then Some awaited else None)"

definition ValidString :: "string \<Rightarrow> bool" where
  "ValidString s \<longleftrightarrow> foldl utf8_step (Some []) (map of_char s) = Some []"

text \<open>The elements of a slash-separated name.\<close>

fun elements :: "string \<Rightarrow> string \<Rightarrow> string list" where
  "elements acc [] = [rev acc]"
| "elements acc (c # cs) =
     (if c = CHR ''/'' then rev acc # elements [] cs else elements (c # acc) cs)"

text \<open>
  \<^verbatim>\<open>fs.ValidPath\<close>: valid UTF-8, and either the root \<^verbatim>\<open>"."\<close> or slash-separated elements
  none of which is empty, \<^verbatim>\<open>"."\<close> or \<^verbatim>\<open>".."\<close>.
\<close>

definition ValidPath :: "string \<Rightarrow> bool" where
  "ValidPath name \<longleftrightarrow>
     ValidString name \<and>
     (name = ''.'' \<or>
      (\<forall>elem \<in> set (elements [] name). elem \<noteq> [] \<and> elem \<noteq> ''.'' \<and> elem \<noteq> ''..''))"

definition fs_Open :: "store \<Rightarrow> string \<Rightarrow> PathError + File" where
  "fs_Open s name =
     (if \<not> ValidPath name then Inl \<lparr>Op = ''open'', Path = name, Err = ErrInvalid\<rparr>
      else case s name of
             None \<Rightarrow> Inl \<lparr>Op = ''open'', Path = name, Err = ErrNotExist\<rparr>
           | Some b \<Rightarrow> Inr (File b))"

definition fs_ReadFile :: "store \<Rightarrow> string \<Rightarrow> PathError + byte list" where
  "fs_ReadFile s name = map_sum id contents (fs_Open s name)"

section \<open>The adapter: hashfs.FS\<close>

text \<open>
  The struct \<^verbatim>\<open>FS\<close>. Calls are modelled one at a time, so the lock \<^verbatim>\<open>mu\<close> has no field.
  The field \<open>fs\<close> is the backing file tree as it stands; it can change behind the adapter
  between two calls. The field \<open>io\<close> is not in the Go struct: it records, in order, the
  calls made on the backing store, which makes a read observable.
\<close>

datatype io_call = ReadFileCall string | OpenCall string

record FS =
  fs :: store
  hash :: "string \<rightharpoonup> string"
  base :: "string \<rightharpoonup> string"
  io :: "io_call list"

definition New :: "store \<Rightarrow> FS" where
  "New s = \<lparr>fs = s, hash = Map.empty, base = Map.empty, io = []\<rparr>"

definition getHash :: "FS \<Rightarrow> string \<Rightarrow> string option" where
  "getHash f name = hash f name"

definition getBase :: "FS \<Rightarrow> string \<Rightarrow> string option" where
  "getBase f name = base f name"

definition makeHash :: "FS \<Rightarrow> string \<Rightarrow> string \<times> FS" where
  "makeHash f name =
     (let f' = f\<lparr>io := io f @ [ReadFileCall name]\<rparr>
      in case fs_ReadFile (fs f) name of
           Inl err \<Rightarrow> ([], f')
         | Inr b \<Rightarrow> (EncodeToString (Sum256 b), f'))"

text \<open>\<^verbatim>\<open>f.fs.Open(base)\<close>, the call that ends \<^verbatim>\<open>Open\<close>.\<close>

definition openBacking :: "FS \<Rightarrow> string \<Rightarrow> (PathError + File) \<times> FS" where
  "openBacking f name = (fs_Open (fs f) name, f\<lparr>io := io f @ [OpenCall name]\<rparr>)"

text \<open>
  The three operations return \<open>None\<close> where the Go code would panic on a slice bound,
  and otherwise their result together with the adapter after the call.
\<close>

definition Hash :: "FS \<Rightarrow> string \<Rightarrow> (string \<times> FS) option" where
  "Hash f name =
     (case getHash f name of
        Some h \<Rightarrow> Some (h, f)
      | None \<Rightarrow>
          (let ext = Ext name;
               (h, f1) = makeHash f name
           in if h = [] then Some ([], f1)
              else case slice_to name (len name - len ext) of
                     None \<Rightarrow> None
                   | Some stem \<Rightarrow>
                       (let b = stem @ ''.'' @ h @ ext
                        in Some (h, f1\<lparr>hash := (hash f1)(name \<mapsto> h),
                                          base := (base f1)(b \<mapsto> name)\<rparr>))))"

definition Name :: "FS \<Rightarrow> string \<Rightarrow> (string \<times> FS) option" where
  "Name f name =
     (let ext = Ext name
      in case Hash f name of
           None \<Rightarrow> None
         | Some (h, f1) \<Rightarrow>
             if h = [] then Some ([], f1)
             else case slice_to name (len name - len ext) of
                    None \<Rightarrow> None
                  | Some stem \<Rightarrow> Some (stem @ ''.'' @ h @ ext, f1))"

definition NotExist :: "string \<Rightarrow> PathError" where
  "NotExist name = \<lparr>Op = ''open'', Path = name, Err = ErrNotExist\<rparr>"

text \<open>
  \<^verbatim>\<open>Open\<close> calls the backing store twice when it validates a name: line 96 reads the file
  and, after the two cache writes of lines 102 and 103, line 105 opens it. The file tree
  can change between the two calls. The third argument of the model is the tree as
  line 105 finds it; it is \<open>fs f\<close> when nothing has changed in between. The other paths
  through \<^verbatim>\<open>Open\<close>, and \<^verbatim>\<open>Hash\<close> and \<^verbatim>\<open>Name\<close>, call the backing store at most once.
\<close>

definition Open :: "FS \<Rightarrow> string \<Rightarrow> store \<Rightarrow> ((PathError + File) \<times> FS) option" where
  "Open f name later =
     (case getBase f name of
        Some b \<Rightarrow> Some (openBacking f b)
      | None \<Rightarrow>
          (let ext = Ext name
           in if ext = [] then Some (Inl (NotExist name), f)
              else case slice_to name (len name - len ext) of
                None \<Rightarrow> None
              | Some stem \<Rightarrow>
                 (let hashExt = Ext stem
                  in case (if hashExt = [] then Some (stem, ext)
                           else case slice_to name (len name - len hashExt - len ext) of
                                  None \<Rightarrow> None
                                | Some s \<Rightarrow> Some (s @ ext, hashExt)) of
                       None \<Rightarrow> None
                     | Some (b, hashExt) \<Rightarrow>
                        (let (h, f1) = makeHash f b
                         in if h = [] then Some (Inl (NotExist name), f1)
                            else case slice_from hashExt 1 of
                              None \<Rightarrow> None
                            | Some slot \<Rightarrow>
                                if slot \<noteq> h then Some (Inl (NotExist name), f1)
                                else Some (openBacking
                                       (f1\<lparr>hash := (hash f1)(b \<mapsto> h),
                                            base := (base f1)(name \<mapsto> b),
                                            fs := later\<rparr>) b)))))"

text \<open>
  The naming rule of lines 41 and 74: the digest goes in front of the extension.
\<close>

definition hashed :: "string \<Rightarrow> string \<Rightarrow> string" where
  "hashed p d = take (length p - length (Ext p)) p @ ''.'' @ d @ Ext p"

text \<open>
  Lines 83 to 95 of \<^verbatim>\<open>Open\<close> on their own: the plain path and the digest slot that a
  requested name stands for, \<open>None\<close> when the name has no extension.
\<close>

definition candidate :: "string \<Rightarrow> (string \<times> string) option" where
  "candidate name =
     (let ext = Ext name;
          stem = take (length name - length ext) name;
          hashExt = Ext stem
      in if ext = [] then None
         else if hashExt = [] then Some (stem, drop 1 ext)
         else Some (take (length name - length hashExt - length ext) name @ ext, drop 1 hashExt))"

text \<open>
  Histories of the adapter: calls of the three operations, and changes of the backing
  file tree. \<open>Mutate s\<close> is a change between two calls. \<open>CallOpen name\<close> is an open during
  which the tree stays as it is; \<open>RaceOpen name s\<close> is an open during which the tree
  becomes \<open>s\<close> between the read and the final open.
\<close>

datatype action =
  CallHash string | CallName string | CallOpen string | RaceOpen string store | Mutate store

fun exec :: "action \<Rightarrow> FS \<Rightarrow> FS" where
  "exec (CallHash name) f = (case Hash f name of Some (r, f') \<Rightarrow> f' | None \<Rightarrow> f)"
| "exec (CallName name) f = (case Name f name of Some (r, f') \<Rightarrow> f' | None \<Rightarrow> f)"
| "exec (CallOpen name) f = (case Open f name (fs f) of Some (r, f') \<Rightarrow> f' | None \<Rightarrow> f)"
| "exec (RaceOpen name s) f = (case Open f name s of Some (r, f') \<Rightarrow> f' | None \<Rightarrow> f)"
| "exec (Mutate s) f = f\<lparr>fs := s\<rparr>"

definition run :: "store \<Rightarrow> action list \<Rightarrow> FS" where
  "run s acts = fold exec acts (New s)"

text \<open>The actions that leave the backing file tree as it is.\<close>

fun keeps_store :: "action \<Rightarrow> bool" where
  "keeps_store (Mutate s) = False"
| "keeps_store (RaceOpen name s) = False"
| "keeps_store a = True"

section \<open>Invariants of the two caches\<close>

text \<open>A character that is neither a dot nor a path separator.\<close>

definition plain :: "char \<Rightarrow> bool" where
  "plain c \<longleftrightarrow> c \<noteq> CHR ''.'' \<and> c \<noteq> CHR ''/''"

text \<open>
  What every history keeps: a cached digest is the SHA-256 token of some content, its
  path is one the backing store accepts, and the hashed name built from the pair leads
  back to the path; a hashed name in the reverse cache is built from its path and a
  token, and its path has a digest entry.
\<close>

definition cache_inv :: "FS \<Rightarrow> bool" where
  "cache_inv f \<longleftrightarrow>
     (\<forall>p d. hash f p = Some d \<longrightarrow>
        (\<exists>b. d = EncodeToString (Sum256 b)) \<and> ValidPath p \<and> base f (hashed p d) = Some p) \<and>
     (\<forall>n p. base f n = Some p \<longrightarrow>
        hash f p \<noteq> None \<and> (\<exists>b. n = hashed p (EncodeToString (Sum256 b))))"

text \<open>The two caches agree in both directions.\<close>

definition consistent :: "FS \<Rightarrow> bool" where
  "consistent f \<longleftrightarrow> (\<forall>p d. hash f p = Some d \<longleftrightarrow> base f (hashed p d) = Some p)"

text \<open>
  Every cached digest is the digest of the file as the backing store has it now, and
  every hashed name in the reverse cache carries the cached digest of its path.
\<close>

definition current :: "FS \<Rightarrow> bool" where
  "current f \<longleftrightarrow>
     (\<forall>p d. hash f p = Some d \<longrightarrow> (\<exists>b. fs f p = Some b \<and> d = EncodeToString (Sum256 b))) \<and>
     (\<forall>n p. base f n = Some p \<longrightarrow> (\<exists>d. hash f p = Some d \<and> n = hashed p d))"

section \<open>The test data of the repository\<close>

text \<open>Names, contents and digests of the test suite, and of the histories below.\<close>

abbreviation p_base :: string where
  "p_base \<equiv> ''testdata/base.ext''"

abbreviation p_noext :: string where
  "p_noext \<equiv> ''testdata/noext''"

abbreviation p_dot :: string where
  "p_dot \<equiv> ''testdata/base.''"

abbreviation p_missing :: string where
  "p_missing \<equiv> ''not-found''"

abbreviation c_base :: "byte list" where
  "c_base \<equiv> bytes ''base.ext'' @ [10]"

abbreviation c_noext :: "byte list" where
  "c_noext \<equiv> bytes ''noext'' @ [10]"

abbreviation d_base :: string where
  "d_base \<equiv> ''d476fb7be1b02ea9f66c797a0c11b11ff5db1bd702ff6c4720e455a301a501f1''"

abbreviation d_noext :: string where
  "d_noext \<equiv> ''d9d4e730296e72377ae86529027f7defd5feecf4602a1f15f561cd4fae3644c5''"

abbreviation d_wrong :: string where
  "d_wrong \<equiv> ''8888888888888888888888888888888888888888888888888888888888888888''"

abbreviation n_base :: string where
  "n_base \<equiv> ''testdata/base.d476fb7be1b02ea9f66c797a0c11b11ff5db1bd702ff6c4720e455a301a501f1.ext''"

abbreviation n_noext :: string where
  "n_noext \<equiv> ''testdata/noext.d9d4e730296e72377ae86529027f7defd5feecf4602a1f15f561cd4fae3644c5''"

abbreviation n_edited :: string where
  "n_edited \<equiv> ''testdata/base.d9d4e730296e72377ae86529027f7defd5feecf4602a1f15f561cd4fae3644c5.ext''"

abbreviation n_wrong :: string where
  "n_wrong \<equiv> ''testdata/base.8888888888888888888888888888888888888888888888888888888888888888.ext''"

abbreviation n_trailing :: string where
  "n_trailing \<equiv> ''testdata/noext.''"

abbreviation n_dot :: string where
  "n_dot \<equiv> ''testdata/base.d476fb7be1b02ea9f66c797a0c11b11ff5db1bd702ff6c4720e455a301a501f1.''"

text \<open>
  The two embedded files of the test suite, \<^verbatim>\<open>testdata/base.ext\<close> and \<^verbatim>\<open>testdata/noext\<close>.
  Each holds its own file name and a line feed: these are the contents whose SHA-256
  tokens are the ones that \<^verbatim>\<open>TestHash\<close> expects (lemmas \<open>digest_base\<close> and
  \<open>digest_noext\<close> below).
\<close>

definition testdata :: store where
  "testdata = [p_base \<mapsto> c_base, p_noext \<mapsto> c_noext]"

text \<open>The same tree after \<^verbatim>\<open>testdata/base.ext\<close> has been overwritten.\<close>

definition edited :: store where
  "edited = testdata(p_base \<mapsto> c_noext)"

text \<open>The same tree after \<^verbatim>\<open>testdata/base.ext\<close> has been removed.\<close>

definition removed :: store where
  "removed = [p_noext \<mapsto> c_noext]"

text \<open>A tree whose only file has a name that ends in a dot.\<close>

definition dotted :: store where
  "dotted = [p_dot \<mapsto> c_base]"

section \<open>Digests\<close>

lemma length_BEPutUint32: "length (BEPutUint32 v) = 4"
  by (simp add: BEPutUint32_def)

lemma length_Sum256: "length (Sum256 b) = 32"
  by (simp add: Sum256_def Let_def length_BEPutUint32 split: prod.split)

lemma length_EncodeToString: "length (EncodeToString src) = 2 * length src"
  by (induction src) simp_all

lemma length_hextable: "length hextable = 16"
  by (simp add: hextable_def)

lemma high_nibble_less: "unat (drop_bit 4 (v :: byte)) < 16"
proof -
  have "unat (drop_bit 4 v) = unat v div 2 ^ 4"
    by (simp add: drop_bit_eq_div unat_div)
  moreover have "unat v < 2 ^ 8"
    using unsigned_less [of v] by simp
  ultimately show ?thesis by simp
qed

lemma low_nibble_less: "unat ((v :: byte) AND 0x0f) < 16"
proof -
  have "unat (v AND 0x0f) \<le> unat (0x0f :: byte)"
    by (rule word_and_le1 [THEN word_le_nat_alt [THEN iffD1]])
  then show ?thesis by simp
qed

lemma set_EncodeToString: "c \<in> set (EncodeToString src) \<Longrightarrow> c \<in> set hextable"
proof (induction src)
  case Nil
  then show ?case by simp
next
  case (Cons v src)
  have "hextable ! unat (drop_bit 4 v) \<in> set hextable"
    by (rule nth_mem) (simp add: length_hextable high_nibble_less)
  moreover have "hextable ! unat (v AND 0x0f) \<in> set hextable"
    by (rule nth_mem) (simp add: length_hextable low_nibble_less)
  ultimately show ?case using Cons by auto
qed

lemma is_digest_Sum256: "is_digest (EncodeToString (Sum256 b))"
  by (simp add: is_digest_def length_EncodeToString length_Sum256 set_EncodeToString)

lemma is_digest_nonempty: "is_digest d \<Longrightarrow> d \<noteq> []"
  by (auto simp: is_digest_def)

lemma plain_hextable: "c \<in> set hextable \<Longrightarrow> plain c"
  by (auto simp: hextable_def plain_def)

lemma is_digest_plain: "is_digest d \<Longrightarrow> c \<in> set d \<Longrightarrow> plain c"
  unfolding is_digest_def using plain_hextable by blast

section \<open>Extensions and hashed names\<close>

lemma Ext_from_scan:
  "i \<le> length path \<Longrightarrow>
   Ext_from path i =
     (case dropWhile plain (rev (take i path)) of
        [] \<Rightarrow> []
      | c # rest \<Rightarrow> if c = CHR ''.'' then drop (length rest) path else [])"
proof (induction i)
  case 0
  then show ?case by simp
next
  case (Suc i)
  then have i: "i < length path" by simp
  then have tk: "take (Suc i) path = take i path @ [path ! i]"
    by (simp add: take_Suc_conv_app_nth)
  show ?case
    using Suc i by (auto simp: tk IsPathSeparator_def plain_def)
qed

lemma Ext_scan:
  "Ext path =
     (case dropWhile plain (rev path) of
        [] \<Rightarrow> []
      | c # rest \<Rightarrow> if c = CHR ''.'' then drop (length rest) path else [])"
  using Ext_from_scan [of "length path" path] by (simp add: Ext_def)


lemma Ext_drop: "\<exists>n\<le>length path. Ext path = drop n path"
proof (cases "dropWhile plain (rev path)")
  case Nil
  have "Ext path = drop (length path) path" by (simp add: Ext_scan Nil)
  then show ?thesis by blast
next
  case (Cons c rest)
  have "length (dropWhile plain (rev path)) \<le> length (rev path)"
    by (rule length_dropWhile_le)
  then have le: "length rest \<le> length path" using Cons by simp
  show ?thesis
  proof (cases "c = CHR ''.''")
    case True
    then have "Ext path = drop (length rest) path" by (simp add: Ext_scan Cons)
    with le show ?thesis by blast
  next
    case False
    then have "Ext path = drop (length path) path" by (simp add: Ext_scan Cons)
    then show ?thesis by blast
  qed
qed

lemma length_Ext_le: "length (Ext path) \<le> length path"
  using Ext_drop [of path] by auto

lemma stem_Ext: "take (length path - length (Ext path)) path @ Ext path = path"
proof -
  obtain n where n: "n \<le> length path" "Ext path = drop n path"
    using Ext_drop by blast
  then have "length path - length (Ext path) = n" by simp
  then show ?thesis using n by simp
qed

lemma Ext_shape:
  assumes "Ext path \<noteq> []"
  shows "\<exists>s. Ext path = CHR ''.'' # s \<and> (\<forall>c\<in>set s. plain c)"
proof (cases "dropWhile plain (rev path)")
  case Nil
  show ?thesis using assms by (simp add: Ext_scan Nil)
next
  case (Cons c rest)
  have c: "c = CHR ''.''" using assms by (simp add: Ext_scan Cons split: if_splits)
  have "rev path = takeWhile plain (rev path) @ dropWhile plain (rev path)" by simp
  then have "rev path = takeWhile plain (rev path) @ CHR ''.'' # rest"
    using Cons c by simp
  then have "rev (rev path) = rev (takeWhile plain (rev path) @ CHR ''.'' # rest)"
    by simp
  then have path: "path = rev rest @ CHR ''.'' # rev (takeWhile plain (rev path))"
    by simp
  have "Ext path = drop (length rest) path" using c by (simp add: Ext_scan Cons)
  also have "\<dots> = CHR ''.'' # rev (takeWhile plain (rev path))"
    by (subst path) simp
  finally have "Ext path = CHR ''.'' # rev (takeWhile plain (rev path))" .
  moreover have "\<forall>c\<in>set (rev (takeWhile plain (rev path))). plain c"
    by (auto dest: set_takeWhileD)
  ultimately show ?thesis by blast
qed

lemma Ext_dot_plain:
  assumes "\<forall>c\<in>set s. plain c"
  shows "Ext (stem @ CHR ''.'' # s) = CHR ''.'' # s"
proof -
  have "dropWhile plain (rev (stem @ CHR ''.'' # s)) = dropWhile plain (rev s @ CHR ''.'' # rev stem)"
    by simp
  also have "\<dots> = dropWhile plain (CHR ''.'' # rev stem)"
    by (rule dropWhile_append2) (use assms in simp)
  also have "\<dots> = CHR ''.'' # rev stem" by (simp add: plain_def)
  finally show ?thesis by (simp add: Ext_scan)
qed

lemma Ext_append_plain:
  assumes "\<forall>c\<in>set s. plain c" and "Ext p = []"
  shows "Ext (p @ s) = []"
proof -
  have "dropWhile plain (rev s @ rev p) = dropWhile plain (rev p)"
    by (rule dropWhile_append2) (use assms(1) in simp)
  then have dw: "dropWhile plain (rev (p @ s)) = dropWhile plain (rev p)"
    by simp
  show ?thesis
  proof (cases "dropWhile plain (rev p)")
    case Nil
    show ?thesis by (simp only: Ext_scan dw Nil list.case)
  next
    case (Cons c rest)
    have "length (dropWhile plain (rev p)) \<le> length (rev p)"
      by (rule length_dropWhile_le)
    then have "length rest < length p" using Cons by simp
    then have "drop (length rest) p \<noteq> []" by simp
    then have "c \<noteq> CHR ''.''"
      using assms(2) by (auto simp: Ext_scan [of p] Cons)
    then show ?thesis by (simp only: Ext_scan [of "p @ s"] dw Cons list.case if_False)
  qed
qed

lemma Ext_split:
  obtains (none) "Ext path = []"
  | (dot) stem s where "path = stem @ CHR ''.'' # s" "Ext path = CHR ''.'' # s"
      "\<forall>c\<in>set s. plain c" "take (length path - length (Ext path)) path = stem"
proof (cases "Ext path = []")
  case True
  then show ?thesis by (rule none)
next
  case False
  then obtain s where s: "Ext path = CHR ''.'' # s" "\<forall>c\<in>set s. plain c"
    using Ext_shape by blast
  define stem where "stem = take (length path - length (Ext path)) path"
  have "path = stem @ CHR ''.'' # s"
    using stem_Ext [of path] s(1) by (simp add: stem_def)
  then show ?thesis using s stem_def by (intro dot [of stem s]) simp_all
qed

lemma hashed_no_ext: "Ext p = [] \<Longrightarrow> hashed p d = p @ CHR ''.'' # d"
  by (simp add: hashed_def)

lemma hashed_ext:
  "Ext (stem @ CHR ''.'' # s) = CHR ''.'' # s \<Longrightarrow>
   hashed (stem @ CHR ''.'' # s) d = stem @ CHR ''.'' # d @ CHR ''.'' # s"
  by (simp add: hashed_def)

lemma candidate_hashed:
  assumes d: "\<forall>c\<in>set d. plain c"
  shows "candidate (hashed p d) = Some (p, d)"
proof (cases p rule: Ext_split)
  case none
  have h: "hashed p d = p @ CHR ''.'' # d" using none by (rule hashed_no_ext)
  have e: "Ext (p @ CHR ''.'' # d) = CHR ''.'' # d" using d by (rule Ext_dot_plain)
  show ?thesis
    by (simp add: candidate_def h e none)
next
  case (dot stem s)
  have h: "hashed p d = (stem @ CHR ''.'' # d) @ CHR ''.'' # s"
    using dot(1,2) by (simp add: hashed_def)
  have e: "Ext ((stem @ CHR ''.'' # d) @ CHR ''.'' # s) = CHR ''.'' # s"
    using dot(3) by (rule Ext_dot_plain)
  have e2: "Ext (stem @ CHR ''.'' # d) = CHR ''.'' # d" using d by (rule Ext_dot_plain)
  show ?thesis
    unfolding h candidate_def Let_def e
    by (simp add: e2 dot(1))
qed

lemma hashed_candidate:
  assumes "candidate name = Some (b, slot)"
  shows "hashed b slot = name"
proof (cases name rule: Ext_split)
  case none
  then show ?thesis using assms by (simp add: candidate_def)
next
  case (dot stem s)
  show ?thesis
  proof (cases stem rule: Ext_split)
    case none
    then have "b = stem" "slot = s"
      using assms dot by (simp_all add: candidate_def Let_def)
    then show ?thesis using none dot(1) by (simp add: hashed_no_ext)
  next
    case inner: (dot st2 t)
    have b: "b = st2 @ CHR ''.'' # s" and slot: "slot = t"
      using assms dot inner by (simp_all add: candidate_def Let_def)
    have "Ext (st2 @ CHR ''.'' # s) = CHR ''.'' # s" using dot(3) by (rule Ext_dot_plain)
    then show ?thesis
      using b slot dot(1) inner(1) by (simp add: hashed_def)
  qed
qed

lemma candidate_None: "candidate name = None \<longleftrightarrow> Ext name = []"
  by (simp add: candidate_def Let_def)

lemma hashed_inj:
  assumes "\<forall>c\<in>set d. plain c" "\<forall>c\<in>set d'. plain c" "hashed p d = hashed p' d'"
  shows "p = p' \<and> d = d'"
proof -
  have "Some (p, d) = candidate (hashed p d)"
    using assms(1) by (rule candidate_hashed [symmetric])
  also have "\<dots> = candidate (hashed p' d')"
    by (rule arg_cong [OF assms(3)])
  also have "\<dots> = Some (p', d')"
    using assms(2) by (rule candidate_hashed)
  finally show ?thesis by simp
qed

lemma hashed_same: "hashed p d = hashed p d' \<longleftrightarrow> d = d'"
  by (simp add: hashed_def)

lemma hashed_nonempty: "hashed p d \<noteq> []"
  by (simp add: hashed_def)

section \<open>The operations without panics\<close>

lemma slice_to_stem:
  "slice_to name (len name - len (Ext name)) = Some (take (length name - length (Ext name)) name)"
  using length_Ext_le [of name] by (simp add: slice_to_def nat_diff_distrib')

lemma slice_to_stem2:
  assumes "stem = take (length name - length (Ext name)) name"
  shows "slice_to name (len name - len (Ext stem) - len (Ext name)) =
         Some (take (length name - length (Ext stem) - length (Ext name)) name)"
proof -
  have "length (Ext stem) \<le> length stem" by (rule length_Ext_le)
  also have "length stem = length name - length (Ext name)"
    using assms length_Ext_le [of name] by simp
  finally have le: "length (Ext stem) + length (Ext name) \<le> length name"
    using length_Ext_le [of name] by simp
  then have "nat (len name - len (Ext stem) - len (Ext name)) =
             length name - length (Ext stem) - length (Ext name)"
    by simp
  then show ?thesis using le by (simp add: slice_to_def)
qed

lemma slice_from_1: "s \<noteq> [] \<Longrightarrow> slice_from s 1 = Some (drop 1 s)"
  by (cases s) (simp_all add: slice_from_def)

lemma makeHash_snd: "snd (makeHash f name) = f\<lparr>io := io f @ [ReadFileCall name]\<rparr>"
  by (simp add: makeHash_def Let_def split: sum.split)

lemma makeHash_fst:
  "fst (makeHash f name) =
     (if ValidPath name then case fs f name of None \<Rightarrow> [] | Some b \<Rightarrow> EncodeToString (Sum256 b)
      else [])"
  by (simp add: makeHash_def Let_def fs_ReadFile_def fs_Open_def split: option.split)

lemma makeHash_eq:
  "makeHash f name = (fst (makeHash f name), f\<lparr>io := io f @ [ReadFileCall name]\<rparr>)"
  using makeHash_snd [of f name] by (cases "makeHash f name") simp

lemma makeHash_digest: "fst (makeHash f name) \<noteq> [] \<Longrightarrow> is_digest (fst (makeHash f name))"
  by (auto simp: makeHash_fst is_digest_Sum256 split: if_splits option.splits)

lemma makeHash_Some:
  "fst (makeHash f name) \<noteq> [] \<longleftrightarrow> ValidPath name \<and> fs f name \<noteq> None"
  using is_digest_nonempty [OF is_digest_Sum256]
  by (auto simp: makeHash_fst split: option.splits)

lemma Hash_hit: "hash f name = Some h \<Longrightarrow> Hash f name = Some (h, f)"
  by (simp add: Hash_def getHash_def)

lemma Hash_miss:
  assumes "hash f name = None"
  shows "Hash f name =
     Some (let h = fst (makeHash f name); f1 = f\<lparr>io := io f @ [ReadFileCall name]\<rparr>
           in if h = [] then ([], f1)
              else (h, f1\<lparr>hash := (hash f)(name \<mapsto> h), base := (base f)(hashed name h \<mapsto> name)\<rparr>))"
  unfolding Hash_def getHash_def
  by (subst makeHash_eq) (simp add: assms Let_def slice_to_stem hashed_def)

lemma Name_eq:
  "Name f name =
     (case Hash f name of
        None \<Rightarrow> None
      | Some (h, f1) \<Rightarrow> if h = [] then Some ([], f1) else Some (hashed name h, f1))"
  by (simp add: Name_def Let_def slice_to_stem hashed_def split: option.split prod.split)

lemma Open_hit: "base f name = Some b \<Longrightarrow> Open f name later = Some (openBacking f b)"
  by (simp add: Open_def getBase_def)

lemma Open_miss:
  assumes "base f name = None"
  shows "Open f name later =
     Some (case candidate name of
             None \<Rightarrow> (Inl (NotExist name), f)
           | Some (b, slot) \<Rightarrow>
               (let h = fst (makeHash f b); f1 = f\<lparr>io := io f @ [ReadFileCall b]\<rparr>
                in if h = [] \<or> slot \<noteq> h then (Inl (NotExist name), f1)
                   else openBacking (f1\<lparr>hash := (hash f)(b \<mapsto> h),
                                         base := (base f)(name \<mapsto> b),
                                         fs := later\<rparr>) b))"
proof (cases "Ext name = []")
  case True
  then show ?thesis
    by (simp add: Open_def getBase_def assms candidate_def Let_def)
next
  case False
  define stem where "stem = take (length name - length (Ext name)) name"
  show ?thesis
  proof (cases "Ext stem = []")
    case True
    have c: "candidate name = Some (stem, drop 1 (Ext name))"
      using False True by (simp add: candidate_def Let_def stem_def)
    show ?thesis
      unfolding Open_def getBase_def Let_def c
      by (subst makeHash_eq)
         (simp add: assms False slice_to_stem stem_def [symmetric] True slice_from_1)
  next
    case inner: False
    have c: "candidate name =
        Some (take (length name - length (Ext stem) - length (Ext name)) name @ Ext name,
              drop 1 (Ext stem))"
      using False inner by (simp add: candidate_def Let_def stem_def)
    show ?thesis
      unfolding Open_def getBase_def Let_def c
      by (subst makeHash_eq)
         (simp add: assms False slice_to_stem stem_def [symmetric] inner slice_from_1
            slice_to_stem2 [OF stem_def])
  qed
qed

lemma Hash_total: "Hash f name \<noteq> None"
  by (cases "hash f name") (simp_all add: Hash_hit Hash_miss)

lemma Name_total: "Name f name \<noteq> None"
  using Hash_total [of f name] by (auto simp: Name_eq split: option.splits)

lemma Open_total: "Open f name later \<noteq> None"
  by (cases "base f name") (simp_all add: Open_hit Open_miss)

section \<open>The invariants are kept\<close>

lemma digest_plain: "\<forall>c\<in>set (EncodeToString (Sum256 b)). plain c"
  using is_digest_plain [OF is_digest_Sum256] by blast

lemma cache_inv_io [simp]: "cache_inv (f\<lparr>io := x\<rparr>) = cache_inv f"
  by (simp add: cache_inv_def)

lemma cache_inv_fs [simp]: "cache_inv (f\<lparr>fs := s\<rparr>) = cache_inv f"
  by (simp add: cache_inv_def)

lemma current_io [simp]: "current (f\<lparr>io := x\<rparr>) = current f"
  by (simp add: current_def)

lemma cache_inv_New: "cache_inv (New s)"
  by (simp add: cache_inv_def New_def)

lemma current_New: "current (New s)"
  by (simp add: current_def New_def)

lemma cache_inv_record:
  assumes inv: "cache_inv f" and vp: "ValidPath p"
  shows "cache_inv (f\<lparr>hash := (hash f)(p \<mapsto> EncodeToString (Sum256 c)),
                      base := (base f)(hashed p (EncodeToString (Sum256 c)) \<mapsto> p)\<rparr>)"
    (is "cache_inv ?f'")
proof -
  let ?h = "EncodeToString (Sum256 c)"
  have fwd: "(\<exists>b. d = EncodeToString (Sum256 b)) \<and> ValidPath q \<and> base ?f' (hashed q d) = Some q"
    if "hash ?f' q = Some d" for q d
  proof (cases "q = p")
    case True
    then have "d = ?h" using that by simp
    then show ?thesis using True vp by auto
  next
    case False
    then have old: "hash f q = Some d" using that by simp
    then obtain b where b: "d = EncodeToString (Sum256 b)" "ValidPath q"
        "base f (hashed q d) = Some q"
      using inv unfolding cache_inv_def by blast
    have "hashed q d \<noteq> hashed p ?h"
      using hashed_inj [of d ?h q p] digest_plain False b(1) by blast
    then show ?thesis using b by auto
  qed
  have bwd: "hash ?f' q \<noteq> None \<and> (\<exists>b. n = hashed q (EncodeToString (Sum256 b)))"
    if "base ?f' n = Some q" for n q
  proof (cases "n = hashed p ?h")
    case True
    then have "q = p" using that by simp
    then show ?thesis using True by auto
  next
    case False
    then have "base f n = Some q" using that by simp
    then have "hash f q \<noteq> None \<and> (\<exists>b. n = hashed q (EncodeToString (Sum256 b)))"
      using inv unfolding cache_inv_def by blast
    then show ?thesis by auto
  qed
  show ?thesis
    unfolding cache_inv_def using fwd bwd by blast
qed

lemma current_record:
  assumes cur: "current f" and cont: "fs f p = Some c"
  shows "current (f\<lparr>hash := (hash f)(p \<mapsto> EncodeToString (Sum256 c)),
                     base := (base f)(hashed p (EncodeToString (Sum256 c)) \<mapsto> p)\<rparr>)"
    (is "current ?f'")
proof -
  let ?h = "EncodeToString (Sum256 c)"
  have old: "hash f p = Some d \<Longrightarrow> d = ?h" for d
    using cur cont unfolding current_def by (metis option.inject)
  have fwd: "\<exists>b. fs ?f' q = Some b \<and> d = EncodeToString (Sum256 b)"
    if "hash ?f' q = Some d" for q d
  proof (cases "q = p")
    case True
    then show ?thesis using that cont by simp
  next
    case False
    then have "hash f q = Some d" using that by simp
    then show ?thesis using cur False unfolding current_def by simp
  qed
  have bwd: "\<exists>d. hash ?f' q = Some d \<and> n = hashed q d"
    if "base ?f' n = Some q" for n q
  proof (cases "n = hashed p ?h")
    case True
    then have "q = p" using that by simp
    then show ?thesis using True by simp
  next
    case False
    then have "base f n = Some q" using that by simp
    then obtain d where d: "hash f q = Some d" "n = hashed q d"
      using cur unfolding current_def by blast
    show ?thesis
    proof (cases "q = p")
      case True
      then have "d = ?h" using d(1) old by simp
      then show ?thesis using True d(2) by simp
    next
      case False
      then show ?thesis using d by simp
    qed
  qed
  show ?thesis
    unfolding current_def using fwd bwd by blast
qed

lemma consistent_current:
  assumes "cache_inv f" "current f"
  shows "consistent f"
  unfolding consistent_def
proof (intro allI iffI)
  fix p d
  assume "hash f p = Some d"
  then show "base f (hashed p d) = Some p" using assms(1) unfolding cache_inv_def by blast
next
  fix p d
  assume "base f (hashed p d) = Some p"
  then obtain d' where "hash f p = Some d'" "hashed p d = hashed p d'"
    using assms(2) unfolding current_def by blast
  then show "hash f p = Some d" by (simp add: hashed_same)
qed

lemma Hash_cases [consumes 1, case_names hit fail new]:
  assumes "Hash f name = Some (h, f')"
  obtains
    (hit) "hash f name = Some h" "f' = f"
  | (fail) "hash f name = None" "fst (makeHash f name) = []" "h = []"
      "f' = f\<lparr>io := io f @ [ReadFileCall name]\<rparr>"
  | (new) c where "hash f name = None" "ValidPath name" "fs f name = Some c"
      "h = EncodeToString (Sum256 c)"
      "f' = f\<lparr>hash := (hash f)(name \<mapsto> h), base := (base f)(hashed name h \<mapsto> name),
                io := io f @ [ReadFileCall name]\<rparr>"
proof (cases "hash f name")
  case (Some h')
  then have "h = h'" "f' = f" using assms by (simp_all add: Hash_hit)
  then show ?thesis using Some by (intro hit) simp_all
next
  case None
  have res: "(h, f') =
     (let h = fst (makeHash f name); f1 = f\<lparr>io := io f @ [ReadFileCall name]\<rparr>
      in if h = [] then ([], f1)
         else (h, f1\<lparr>hash := (hash f)(name \<mapsto> h), base := (base f)(hashed name h \<mapsto> name)\<rparr>))"
    using assms unfolding Hash_miss [OF None] by simp
  show ?thesis
  proof (cases "fst (makeHash f name) = []")
    case True
    then have "h = []" "f' = f\<lparr>io := io f @ [ReadFileCall name]\<rparr>"
      using res by (simp_all add: Let_def)
    with None True show ?thesis by (rule fail)
  next
    case False
    then have vp: "ValidPath name" and "fs f name \<noteq> None" by (simp_all add: makeHash_Some)
    then obtain c where c: "fs f name = Some c" by blast
    then have m: "fst (makeHash f name) = EncodeToString (Sum256 c)"
      using vp by (simp add: makeHash_fst)
    have "h = EncodeToString (Sum256 c)"
      using res False by (simp add: Let_def m)
    moreover have "f' = f\<lparr>hash := (hash f)(name \<mapsto> h), base := (base f)(hashed name h \<mapsto> name),
                io := io f @ [ReadFileCall name]\<rparr>"
      using res False by (simp add: Let_def)
    ultimately show ?thesis using None vp c by (intro new [of c])
  qed
qed

lemma Open_cases [consumes 1, case_names hit noext reject accept]:
  assumes "Open f name later = Some (r, f')"
  obtains
    (hit) b where "base f name = Some b" "r = fs_Open (fs f) b"
      "f' = f\<lparr>io := io f @ [OpenCall b]\<rparr>"
  | (noext) "base f name = None" "Ext name = []" "r = Inl (NotExist name)" "f' = f"
  | (reject) b slot where "base f name = None" "candidate name = Some (b, slot)"
      "fst (makeHash f b) = [] \<or> slot \<noteq> fst (makeHash f b)"
      "r = Inl (NotExist name)" "f' = f\<lparr>io := io f @ [ReadFileCall b]\<rparr>"
  | (accept) b h c where "base f name = None" "candidate name = Some (b, h)"
      "ValidPath b" "fs f b = Some c" "h = EncodeToString (Sum256 c)" "name = hashed b h"
      "r = fs_Open later b"
      "f' = f\<lparr>fs := later, hash := (hash f)(b \<mapsto> h), base := (base f)(hashed b h \<mapsto> b),
                io := io f @ [ReadFileCall b, OpenCall b]\<rparr>"
proof (cases "base f name")
  case (Some b)
  then show ?thesis using assms hit [of b] by (simp add: Open_hit openBacking_def)
next
  case None
  have res: "(r, f') =
     (case candidate name of
        None \<Rightarrow> (Inl (NotExist name), f)
      | Some (b, slot) \<Rightarrow>
          (let h = fst (makeHash f b); f1 = f\<lparr>io := io f @ [ReadFileCall b]\<rparr>
           in if h = [] \<or> slot \<noteq> h then (Inl (NotExist name), f1)
              else openBacking (f1\<lparr>hash := (hash f)(b \<mapsto> h),
                                    base := (base f)(name \<mapsto> b),
                                    fs := later\<rparr>) b))"
    using assms unfolding Open_miss [OF None] by simp
  show ?thesis
  proof (cases "candidate name")
    case cn: None
    then have "Ext name = []" by (simp add: candidate_None)
    moreover have "r = Inl (NotExist name)" "f' = f" using res cn by simp_all
    ultimately show ?thesis using None by (intro noext)
  next
    case (Some bs)
    then obtain b slot where bs: "candidate name = Some (b, slot)" by (cases bs) simp
    then have nm: "hashed b slot = name" by (rule hashed_candidate)
    show ?thesis
    proof (cases "fst (makeHash f b) = [] \<or> slot \<noteq> fst (makeHash f b)")
      case True
      then have "r = Inl (NotExist name)" "f' = f\<lparr>io := io f @ [ReadFileCall b]\<rparr>"
        using res by (simp_all add: bs Let_def)
      with None bs True show ?thesis by (rule reject)
    next
      case False
      then have ne: "fst (makeHash f b) \<noteq> []" and slot: "fst (makeHash f b) = slot"
        by simp_all
      from ne have vp: "ValidPath b" and "fs f b \<noteq> None" by (simp_all add: makeHash_Some)
      then obtain c where c: "fs f b = Some c" by blast
      then have "fst (makeHash f b) = EncodeToString (Sum256 c)"
        using vp by (simp add: makeHash_fst)
      then have h: "slot = EncodeToString (Sum256 c)" using slot by simp
      have rf: "(r, f') = openBacking (f\<lparr>io := io f @ [ReadFileCall b],
                  hash := (hash f)(b \<mapsto> slot), base := (base f)(name \<mapsto> b),
                  fs := later\<rparr>) b"
        using res ne by (simp add: bs Let_def slot)
      have "r = fs_Open later b"
        using rf by (simp add: openBacking_def)
      moreover have "f' = f\<lparr>fs := later, hash := (hash f)(b \<mapsto> slot),
                base := (base f)(hashed b slot \<mapsto> b),
                io := io f @ [ReadFileCall b, OpenCall b]\<rparr>"
        using rf by (simp add: openBacking_def nm)
      ultimately show ?thesis
        using None bs vp c h nm [symmetric] by (intro accept [of b slot c])
    qed
  qed
qed

lemma Name_cases [consumes 1, case_names empty named]:
  assumes "Name f name = Some (n, f')"
  obtains
    (empty) "Hash f name = Some ([], f')" "n = []"
  | (named) h where "Hash f name = Some (h, f')" "h \<noteq> []" "n = hashed name h"
  using assms Hash_total [of f name]
  by (auto simp: Name_eq split: option.splits if_splits)

lemma Hash_cache_inv:
  assumes "Hash f name = Some (h, f')" "cache_inv f"
  shows "cache_inv f'"
  using assms
proof (cases rule: Hash_cases)
  case (new c)
  have "cache_inv (f\<lparr>hash := (hash f)(name \<mapsto> EncodeToString (Sum256 c)),
          base := (base f)(hashed name (EncodeToString (Sum256 c)) \<mapsto> name)\<rparr>)"
    using assms(2) new(2) by (rule cache_inv_record)
  then show ?thesis using new by (simp add: cache_inv_def)
qed simp_all

lemma Open_cache_inv:
  assumes "Open f name later = Some (r, f')" "cache_inv f"
  shows "cache_inv f'"
  using assms
proof (cases rule: Open_cases)
  case (accept b h c)
  have "cache_inv (f\<lparr>hash := (hash f)(b \<mapsto> EncodeToString (Sum256 c)),
          base := (base f)(hashed b (EncodeToString (Sum256 c)) \<mapsto> b)\<rparr>)"
    using assms(2) accept(3) by (rule cache_inv_record)
  then show ?thesis using accept by (simp add: cache_inv_def)
qed simp_all

lemma Name_cache_inv:
  assumes "Name f name = Some (n, f')" "cache_inv f"
  shows "cache_inv f'"
  using assms by (cases rule: Name_cases) (auto dest: Hash_cache_inv)

lemma exec_cache_inv: "cache_inv f \<Longrightarrow> cache_inv (exec a f)"
  by (cases a)
     (auto split: option.splits dest: Hash_cache_inv Name_cache_inv Open_cache_inv)

lemma fold_exec_cache_inv: "cache_inv f \<Longrightarrow> cache_inv (fold exec acts f)"
  by (induction acts arbitrary: f) (simp_all add: exec_cache_inv)

lemma run_cache_inv: "cache_inv (run s acts)"
  unfolding run_def by (rule fold_exec_cache_inv) (rule cache_inv_New)

lemma Hash_current:
  assumes "Hash f name = Some (h, f')" "current f"
  shows "current f'"
  using assms
proof (cases rule: Hash_cases)
  case (new c)
  have "current (f\<lparr>hash := (hash f)(name \<mapsto> EncodeToString (Sum256 c)),
          base := (base f)(hashed name (EncodeToString (Sum256 c)) \<mapsto> name)\<rparr>)"
    using assms(2) new(3) by (rule current_record)
  then show ?thesis using new by (simp add: current_def)
qed simp_all

lemma Open_current:
  assumes "Open f name (fs f) = Some (r, f')" "current f"
  shows "current f'"
  using assms
proof (cases rule: Open_cases)
  case (accept b h c)
  have "current (f\<lparr>hash := (hash f)(b \<mapsto> EncodeToString (Sum256 c)),
          base := (base f)(hashed b (EncodeToString (Sum256 c)) \<mapsto> b)\<rparr>)"
    using assms(2) accept(4) by (rule current_record)
  then show ?thesis using accept by (simp add: current_def)
qed simp_all

lemma Name_current:
  assumes "Name f name = Some (n, f')" "current f"
  shows "current f'"
  using assms by (cases rule: Name_cases) (auto dest: Hash_current)

lemma exec_current: "keeps_store a \<Longrightarrow> current f \<Longrightarrow> current (exec a f)"
  by (cases a)
     (auto split: option.splits dest: Hash_current Name_current Open_current)

lemma fold_exec_current:
  "\<forall>a\<in>set acts. keeps_store a \<Longrightarrow> current f \<Longrightarrow> current (fold exec acts f)"
  by (induction acts arbitrary: f) (simp_all add: exec_current)

lemma run_current: "\<forall>a\<in>set acts. keeps_store a \<Longrightarrow> current (run s acts)"
  unfolding run_def by (rule fold_exec_current) (simp_all add: current_New)

section \<open>The test data, evaluated\<close>

lemma digest_base: "EncodeToString (Sum256 c_base) = d_base"
  by code_simp

lemma digest_noext: "EncodeToString (Sum256 c_noext) = d_noext"
  by code_simp

lemma Ext_p_base: "Ext p_base = ''.ext''"
  by code_simp

lemma Ext_p_noext: "Ext p_noext = []"
  by code_simp

lemma Ext_p_dot: "Ext p_dot = ''.''"
  by code_simp

lemma ValidPath_p_base: "ValidPath p_base"
  by code_simp

lemma ValidPath_p_noext: "ValidPath p_noext"
  by code_simp

lemma ValidPath_p_dot: "ValidPath p_dot"
  by code_simp

lemma ValidPath_p_missing: "ValidPath p_missing"
  by code_simp

lemma hashed_p_base: "hashed p_base d = ''testdata/base.'' @ d @ ''.ext''"
  by (simp add: hashed_def Ext_p_base)

lemma hashed_p_noext: "hashed p_noext d = ''testdata/noext.'' @ d"
  by (simp add: hashed_def Ext_p_noext)

lemma candidate_n_base: "candidate n_base = Some (p_base, d_base)"
  by code_simp

lemma candidate_n_noext: "candidate n_noext = Some (p_noext, d_noext)"
  by code_simp

lemma candidate_n_edited: "candidate n_edited = Some (p_base, d_noext)"
  by code_simp

lemma candidate_n_wrong: "candidate n_wrong = Some (p_base, d_wrong)"
  by code_simp

lemma candidate_n_dot: "candidate n_dot = Some (p_dot, d_base)"
  by code_simp

lemma Hash_base:
  "Hash (New testdata) p_base =
     Some (d_base, \<lparr>fs = testdata, hash = [p_base \<mapsto> d_base], base = [n_base \<mapsto> p_base],
                    io = [ReadFileCall p_base]\<rparr>)"
  by (simp add: New_def Hash_miss makeHash_fst ValidPath_p_base testdata_def
        digest_base hashed_p_base Let_def)

lemma run_Hash_base:
  "run testdata [CallHash p_base] =
     \<lparr>fs = testdata, hash = [p_base \<mapsto> d_base], base = [n_base \<mapsto> p_base],
      io = [ReadFileCall p_base]\<rparr>"
  by (simp add: run_def Hash_base)

lemma run_Name_base: "run testdata [CallName p_base] = run testdata [CallHash p_base]"
  by (simp add: run_def Name_eq Hash_base)

lemma run_Hash_base_edited:
  "run testdata [CallHash p_base, Mutate edited] =
     \<lparr>fs = edited, hash = [p_base \<mapsto> d_base], base = [n_base \<mapsto> p_base],
      io = [ReadFileCall p_base]\<rparr>"
  by (simp add: run_def Hash_base)

lemma fs_run_Hash_base: "fs (run testdata [CallHash p_base]) = testdata"
  by (simp add: run_Hash_base)

lemma fs_run_Hash_base_edited: "fs (run testdata [CallHash p_base, Mutate edited]) = edited"
  by (simp add: run_Hash_base_edited)

lemma Open_edited:
  "Open (run testdata [CallHash p_base, Mutate edited]) n_edited edited =
     Some (Inr (File c_noext),
       \<lparr>fs = edited, hash = [p_base \<mapsto> d_noext],
        base = [n_base \<mapsto> p_base, n_edited \<mapsto> p_base],
        io = [ReadFileCall p_base, ReadFileCall p_base, OpenCall p_base]\<rparr>)"
  unfolding run_Hash_base_edited
  by (simp add: Open_miss candidate_n_edited makeHash_fst ValidPath_p_base edited_def
        digest_noext openBacking_def fs_Open_def Let_def)

lemma run_Open_edited:
  "run testdata [CallHash p_base, Mutate edited, CallOpen n_edited] =
     \<lparr>fs = edited, hash = [p_base \<mapsto> d_noext],
      base = [n_base \<mapsto> p_base, n_edited \<mapsto> p_base],
      io = [ReadFileCall p_base, ReadFileCall p_base, OpenCall p_base]\<rparr>"
proof -
  have "run testdata [CallHash p_base, Mutate edited, CallOpen n_edited] =
      exec (CallOpen n_edited) (run testdata [CallHash p_base, Mutate edited])"
    by (simp add: run_def)
  then show ?thesis by (simp add: fs_run_Hash_base_edited Open_edited)
qed

lemma Open_wrong_cached:
  "Open (run testdata [CallHash p_base]) n_wrong testdata =
     Some (Inl (NotExist n_wrong),
       \<lparr>fs = testdata, hash = [p_base \<mapsto> d_base], base = [n_base \<mapsto> p_base],
        io = [ReadFileCall p_base, ReadFileCall p_base]\<rparr>)"
  unfolding run_Hash_base
  by (simp add: Open_miss candidate_n_wrong makeHash_fst ValidPath_p_base testdata_def
        digest_base Let_def)

lemma run_Name_base_edited:
  "run testdata [CallName p_base, Mutate edited] = run testdata [CallHash p_base, Mutate edited]"
  by (simp add: run_def Name_eq Hash_base)

lemma run_Name_base_removed:
  "run testdata [CallName p_base, Mutate removed] =
     \<lparr>fs = removed, hash = [p_base \<mapsto> d_base], base = [n_base \<mapsto> p_base],
      io = [ReadFileCall p_base]\<rparr>"
  by (simp add: run_def Name_eq Hash_base)

lemma Hash_missing:
  "Hash (New testdata) p_missing =
     Some ([], \<lparr>fs = testdata, hash = Map.empty, base = Map.empty,
                 io = [ReadFileCall p_missing]\<rparr>)"
  by (simp add: New_def Hash_miss makeHash_fst testdata_def Let_def)

lemma run_Hash_missing:
  "run testdata [CallHash p_missing] =
     \<lparr>fs = testdata, hash = Map.empty, base = Map.empty, io = [ReadFileCall p_missing]\<rparr>"
  by (simp add: run_def Hash_missing)

lemma Hash_missing_again:
  "Hash (run testdata [CallHash p_missing]) p_missing =
     Some ([], \<lparr>fs = testdata, hash = Map.empty, base = Map.empty,
                 io = [ReadFileCall p_missing, ReadFileCall p_missing]\<rparr>)"
  unfolding run_Hash_missing
  by (simp add: Hash_miss makeHash_fst testdata_def Let_def)



subsection \<open>The tests of the repository\<close>

text \<open>
  The tests of the repository hold in the model: \<^verbatim>\<open>TestHash\<close> and \<^verbatim>\<open>TestHashPathError\<close>
  are the lemmas \<open>Hash_base\<close> and \<open>Hash_missing\<close> above and the witness of C4 below;
  \<^verbatim>\<open>TestOpen\<close> and \<^verbatim>\<open>TestOpenPathError\<close> follow.
\<close>

lemma TestOpen:
  "map_option fst (Open (New testdata) n_base testdata) = Some (Inr (File c_base))"
  "map_option fst (Open (New testdata) n_noext testdata) = Some (Inr (File c_noext))"
  by (simp_all add: New_def Open_miss candidate_n_base candidate_n_noext makeHash_fst
        ValidPath_p_base ValidPath_p_noext testdata_def digest_base digest_noext
        openBacking_def fs_Open_def Let_def)

lemma candidate_noext_wrong:
  "candidate ''testdata/noext.8888888888888888888888888888888888888888888888888888888888888888''
     = Some (p_noext, d_wrong)"
  by code_simp

lemma TestOpenPathError:
  "map_option fst (Open (New testdata) p_base testdata) = Some (Inl (NotExist p_base))"
  "map_option fst (Open (New testdata) n_wrong testdata) = Some (Inl (NotExist n_wrong))"
  "map_option fst (Open (New testdata) p_noext testdata) = Some (Inl (NotExist p_noext))"
  "map_option fst (Open (New testdata)
      ''testdata/noext.8888888888888888888888888888888888888888888888888888888888888888''
      testdata) =
   Some (Inl (NotExist
      ''testdata/noext.8888888888888888888888888888888888888888888888888888888888888888''))"
proof -
  have c: "candidate p_base = Some (''testdata/base'', ''ext'')" by code_simp
  have v: "ValidPath ''testdata/base''" by code_simp
  show "map_option fst (Open (New testdata) p_base testdata) = Some (Inl (NotExist p_base))"
    by (simp add: New_def Open_miss c makeHash_fst v testdata_def Let_def)
  show "map_option fst (Open (New testdata) n_wrong testdata) = Some (Inl (NotExist n_wrong))"
    by (simp add: New_def Open_miss candidate_n_wrong makeHash_fst ValidPath_p_base
          testdata_def digest_base Let_def)
  have n: "candidate p_noext = None" by code_simp
  show "map_option fst (Open (New testdata) p_noext testdata) = Some (Inl (NotExist p_noext))"
    by (simp add: New_def Open_miss n)
  show "map_option fst (Open (New testdata)
      ''testdata/noext.8888888888888888888888888888888888888888888888888888888888888888''
      testdata) =
   Some (Inl (NotExist
      ''testdata/noext.8888888888888888888888888888888888888888888888888888888888888888''))"
    by (simp add: New_def Open_miss candidate_noext_wrong makeHash_fst ValidPath_p_noext
          testdata_def digest_noext Let_def)
qed

section \<open>Single steps of a history\<close>

lemma makeHash_ReadFile:
  "fst (makeHash f b) =
     (case fs_ReadFile (fs f) b of Inl e \<Rightarrow> [] | Inr c \<Rightarrow> EncodeToString (Sum256 c))"
  by (simp add: makeHash_def Let_def split: sum.split)

lemma rejected_iff:
  "fst (makeHash f b) = [] \<or> slot \<noteq> fst (makeHash f b) \<longleftrightarrow>
     (case fs_ReadFile (fs f) b of Inl e \<Rightarrow> True | Inr c \<Rightarrow> slot \<noteq> EncodeToString (Sum256 c))"
  using is_digest_nonempty [OF is_digest_Sum256]
  by (auto simp: makeHash_ReadFile split: sum.splits)



lemma fs_Open_Path: "fs_Open s b = Inl e \<Longrightarrow> Path e = b"
  by (auto simp: fs_Open_def split: if_splits option.splits)

lemma length_hashed: "length (hashed b d) = Suc (length b + length d)"
proof -
  have "length (take (length b - length (Ext b)) b @ Ext b) = length b"
    by (simp only: stem_Ext)
  then show ?thesis by (simp add: hashed_def)
qed

lemma candidate_neq:
  assumes "candidate name = Some (b, slot)"
  shows "b \<noteq> name"
proof -
  have "hashed b slot = name" using assms by (rule hashed_candidate)
  then have "length name = Suc (length b + length slot)"
    using length_hashed [of b slot] by simp
  then show ?thesis by auto
qed

lemma fs_Open_not_NotExist:
  assumes "candidate name = Some (b, slot)"
  shows "fs_Open s b \<noteq> Inl (NotExist name)"
proof
  assume "fs_Open s b = Inl (NotExist name)"
  then have "Path (NotExist name) = b" by (rule fs_Open_Path)
  then show False using candidate_neq [OF assms] by (simp add: NotExist_def)
qed


lemma exec_CallOpen: "exec (CallOpen name) f = exec (RaceOpen name (fs f)) f"
  by simp

lemma cached_Hash_noop:
  assumes "hash f p \<noteq> None"
  shows "exec (CallHash p) f = f \<and> exec (CallName p) f = f"
proof -
  obtain d where d: "hash f p = Some d" using assms by auto
  then have "Hash f p = Some (d, f)" by (rule Hash_hit)
  then show ?thesis by (simp add: Name_eq)
qed

lemma Open_reads_candidate:
  assumes "base f name = None" "candidate name = Some (b, slot)"
  shows "take (Suc (length (io f))) (io (exec (RaceOpen name later) f)) =
           io f @ [ReadFileCall b]"
proof -
  obtain r f' where o: "Open f name later = Some (r, f')"
    using Open_total [of f name later] by (cases "Open f name later") auto
  from o have "take (Suc (length (io f))) (io f') = io f @ [ReadFileCall b]"
  proof (cases rule: Open_cases)
    case (hit b')
    then show ?thesis using assms(1) by simp
  next
    case noext
    then show ?thesis using assms(2) by (simp add: candidate_def Let_def)
  next
    case (reject b' slot')
    then show ?thesis using assms(2) by simp
  next
    case (accept b' h c)
    then show ?thesis using assms(2) by simp
  qed
  then show ?thesis using o by simp
qed

lemma Open_stores_fresh:
  assumes "base f name = None" "candidate name = Some (b, EncodeToString (Sum256 c))"
    "ValidPath b" "fs f b = Some c"
  shows "hash (exec (RaceOpen name later) f) b = Some (EncodeToString (Sum256 c))"
proof -
  have m: "fst (makeHash f b) = EncodeToString (Sum256 c)"
    using assms(3,4) by (simp add: makeHash_fst)
  have "EncodeToString (Sum256 c) \<noteq> []"
    by (rule is_digest_nonempty [OF is_digest_Sum256])
  then show ?thesis
    by (simp add: Open_miss [OF assms(1)] assms(2) m Let_def openBacking_def)
qed

lemma step_growth:
  assumes inv: "cache_inv f"
  shows "(\<forall>n p. base f n = Some p \<longrightarrow> base (exec a f) n = Some p) \<and>
         (\<forall>p d. hash f p = Some d \<longrightarrow>
            hash (exec a f) p = Some d \<or>
            (\<exists>name c. (a = CallOpen name \<or> (\<exists>s. a = RaceOpen name s)) \<and> fs f p = Some c \<and>
               EncodeToString (Sum256 c) \<noteq> d \<and>
               hash (exec a f) p = Some (EncodeToString (Sum256 c))))"
proof -
  have hash_step: "(\<forall>n p. base f n = Some p \<longrightarrow> base f' n = Some p) \<and>
      (\<forall>p d. hash f p = Some d \<longrightarrow> hash f' p = Some d)"
    if "Hash f name = Some (h, f')" for name h f'
    using that
  proof (cases rule: Hash_cases)
    case (new c)
    have "base f' n = Some p" if b: "base f n = Some p" for n p
    proof (cases "n = hashed name h")
      case True
      obtain b' where "n = hashed p (EncodeToString (Sum256 b'))"
        using inv b unfolding cache_inv_def by blast
      then have "p = name"
        using True new(4) hashed_inj [of "EncodeToString (Sum256 b')" h p name] digest_plain
        by simp
      then show ?thesis using True new(5) by simp
    next
      case False
      then show ?thesis using b new(5) by simp
    qed
    moreover have "hash f' p = Some d" if "hash f p = Some d" for p d
      using that new(1,5) by (cases "p = name") simp_all
    ultimately show ?thesis by blast
  qed simp_all
  have open_step: "(\<forall>n p. base f n = Some p \<longrightarrow> base f' n = Some p) \<and>
         (\<forall>p d. hash f p = Some d \<longrightarrow>
            hash f' p = Some d \<or>
            (\<exists>c. fs f p = Some c \<and> EncodeToString (Sum256 c) \<noteq> d \<and>
               hash f' p = Some (EncodeToString (Sum256 c))))"
    if "Open f name later = Some (r, f')" for name later r f'
    using that
  proof (cases rule: Open_cases)
    case (accept b h c)
    have "base f' n = Some p" if "base f n = Some p" for n p
    proof -
      have "n \<noteq> name" using that accept(1) by auto
      then show ?thesis using that accept(6,8) by simp
    qed
    moreover have "hash f' p = Some d \<or>
          (\<exists>c. fs f p = Some c \<and> EncodeToString (Sum256 c) \<noteq> d \<and>
             hash f' p = Some (EncodeToString (Sum256 c)))" if "hash f p = Some d" for p d
      using that accept(4,5,8) by (cases "p = b") auto
    ultimately show ?thesis by blast
  qed simp_all
  show ?thesis
  proof (cases a)
    case (CallHash name)
    obtain h f' where "Hash f name = Some (h, f')"
      using Hash_total [of f name] by (cases "Hash f name") auto
    then show ?thesis using hash_step [of name h f'] CallHash by simp
  next
    case (CallName name)
    obtain n f' where n: "Name f name = Some (n, f')"
      using Name_total [of f name] by (cases "Name f name") auto
    then obtain h where "Hash f name = Some (h, f')"
      by (cases rule: Name_cases) blast+
    then show ?thesis using hash_step [of name h f'] CallName n by simp
  next
    case (CallOpen name)
    obtain r f' where o: "Open f name (fs f) = Some (r, f')"
      using Open_total [of f name "fs f"] by (cases "Open f name (fs f)") auto
    then show ?thesis using open_step [OF o] CallOpen by auto
  next
    case (RaceOpen name s)
    obtain r f' where o: "Open f name s = Some (r, f')"
      using Open_total [of f name s] by (cases "Open f name s") auto
    then show ?thesis using open_step [OF o] RaceOpen by auto
  next
    case (Mutate s)
    then show ?thesis by simp
  qed
qed

lemma static_cached_digest:
  assumes "f = run s acts" "\<forall>a\<in>set acts. keeps_store a" "hash f b = Some d"
  shows "ValidPath b \<and> (\<exists>c. fs f b = Some c \<and> d = EncodeToString (Sum256 c))"
proof -
  have "cache_inv f" unfolding assms(1) by (rule run_cache_inv)
  moreover have "current f" unfolding assms(1) using assms(2) by (rule run_current)
  ultimately show ?thesis using assms(3) unfolding cache_inv_def current_def by blast
qed

subsection \<open>What open replaces\<close>

lemma Open_replaces_iff:
  assumes "hash f p = Some d"
  shows "hash (exec (RaceOpen name later) f) p \<noteq> Some d \<longleftrightarrow>
     base f name = None \<and>
     (\<exists>c. candidate name = Some (p, EncodeToString (Sum256 c)) \<and> ValidPath p \<and>
        fs f p = Some c \<and> EncodeToString (Sum256 c) \<noteq> d)"
    (is "?changed \<longleftrightarrow> ?fresh")
proof
  assume ?fresh
  then obtain c where c: "base f name = None"
      "candidate name = Some (p, EncodeToString (Sum256 c))" "ValidPath p" "fs f p = Some c"
      "EncodeToString (Sum256 c) \<noteq> d"
    by blast
  have "hash (exec (RaceOpen name later) f) p = Some (EncodeToString (Sum256 c))"
    using c(1,2,3,4) by (rule Open_stores_fresh)
  then show ?changed using c(5) by simp
next
  assume ch: ?changed
  obtain r f' where o: "Open f name later = Some (r, f')"
    using Open_total [of f name later] by (cases "Open f name later") auto
  then have ch': "hash f' p \<noteq> Some d" using ch by simp
  from o show ?fresh
  proof (cases rule: Open_cases)
    case (hit b)
    then show ?thesis using ch' assms by (simp add: openBacking_def)
  next
    case noext
    then show ?thesis using ch' assms by simp
  next
    case (reject b slot)
    then show ?thesis using ch' assms by simp
  next
    case (accept b h c)
    have pb: "p = b" using ch' assms accept(8) by (cases "p = b") simp_all
    then have "h \<noteq> d" using ch' accept(8) by simp
    then show ?thesis using accept(1,2,3,4,5) pb by simp
  qed
qed

section \<open>The claims\<close>

subsection \<open>C1: how open validates a name\<close>

text \<open>
  C1, as amended. The claim says that step 3 of open computes the digest of the candidate
  plain path through the cache-or-read path of digest(), so that a cached digest is used
  without a read. The code calls \<^verbatim>\<open>makeHash\<close>, not \<^verbatim>\<open>Hash\<close>: for every requested name that
  misses the reverse-name cache and has an extension, open reads the candidate plain path
  from the backing store, whether or not its digest is cached (the read is the first call
  that open adds to the record of calls). The validation passes, that is, open does not
  return its own not-found error, exactly when the file can be read and the digest slot
  equals the digest of the bytes read; open then succeeds exactly when, in addition, the
  backing store can still open the plain path at the final open of line 105. The outcome
  of the validation is what digest(candidate) would return at that point when the
  candidate has no entry in the digest cache, and also when no file of the backing store
  has changed during the history of the adapter.
\<close>

theorem Open_validates_by_reading:
  assumes miss: "base f name = None" and cand: "candidate name = Some (b, slot)"
  shows "\<exists>r f'. Open f name later = Some (r, f') \<and>
      (r \<noteq> Inl (NotExist name) \<longleftrightarrow>
         ValidPath b \<and> (\<exists>c. fs f b = Some c \<and> slot = EncodeToString (Sum256 c))) \<and>
      (\<not> isl r \<longleftrightarrow>
         ValidPath b \<and> (\<exists>c. fs f b = Some c \<and> slot = EncodeToString (Sum256 c)) \<and>
         (\<exists>c'. later b = Some c')) \<and>
      take (Suc (length (io f))) (io f') = io f @ [ReadFileCall b] \<and>
      (hash f b = None \<or> (\<exists>s acts. f = run s acts \<and> (\<forall>a\<in>set acts. keeps_store a)) \<longrightarrow>
         (r \<noteq> Inl (NotExist name) \<longleftrightarrow>
            (\<exists>d f''. Hash f b = Some (d, f'') \<and> d \<noteq> [] \<and> slot = d)))"
proof -
  obtain r f' where o: "Open f name later = Some (r, f')"
    using Open_total [of f name later] by (cases "Open f name later") auto
  have fresh: "ValidPath b \<and> (\<exists>c. fs f b = Some c \<and> slot = EncodeToString (Sum256 c)) \<longleftrightarrow>
      fst (makeHash f b) \<noteq> [] \<and> slot = fst (makeHash f b)"
    using is_digest_nonempty [OF is_digest_Sum256]
    by (auto simp: makeHash_fst split: option.splits)
  have uncached: "(\<exists>d f''. Hash f b = Some (d, f'') \<and> d \<noteq> [] \<and> slot = d) \<longleftrightarrow>
      fst (makeHash f b) \<noteq> [] \<and> slot = fst (makeHash f b)" if "hash f b = None"
    by (auto simp: Hash_miss [OF that] Let_def)
  have static: "(\<exists>d f''. Hash f b = Some (d, f'') \<and> d \<noteq> [] \<and> slot = d) \<longleftrightarrow>
      fst (makeHash f b) \<noteq> [] \<and> slot = fst (makeHash f b)"
    if st: "\<exists>s acts. f = run s acts \<and> (\<forall>a\<in>set acts. keeps_store a)"
  proof (cases "hash f b")
    case None
    then show ?thesis by (rule uncached)
  next
    case (Some d)
    obtain s acts where "f = run s acts" "\<forall>a\<in>set acts. keeps_store a" using st by blast
    then obtain c where "ValidPath b" "fs f b = Some c" "d = EncodeToString (Sum256 c)"
      using static_cached_digest Some by blast
    then have "fst (makeHash f b) = d" "d \<noteq> []"
      using is_digest_nonempty [OF is_digest_Sum256, of c] by (simp_all add: makeHash_fst)
    then show ?thesis using Some by (auto simp: Hash_hit)
  qed
  have agree: "r \<noteq> Inl (NotExist name) \<longleftrightarrow>
      (\<exists>d f''. Hash f b = Some (d, f'') \<and> d \<noteq> [] \<and> slot = d)"
    if "hash f b = None \<or> (\<exists>s acts. f = run s acts \<and> (\<forall>a\<in>set acts. keeps_store a))"
      and "r \<noteq> Inl (NotExist name) \<longleftrightarrow> fst (makeHash f b) \<noteq> [] \<and> slot = fst (makeHash f b)"
    using that uncached static by blast
  have later: "\<not> isl (fs_Open later b) \<longleftrightarrow> (\<exists>c'. later b = Some c')" if "ValidPath b"
    using that by (auto simp: fs_Open_def split: option.splits)
  from o have "(r \<noteq> Inl (NotExist name) \<longleftrightarrow>
        fst (makeHash f b) \<noteq> [] \<and> slot = fst (makeHash f b)) \<and>
      (\<not> isl r \<longleftrightarrow> fst (makeHash f b) \<noteq> [] \<and> slot = fst (makeHash f b) \<and>
         (\<exists>c'. later b = Some c')) \<and>
      take (Suc (length (io f))) (io f') = io f @ [ReadFileCall b]"
  proof (cases rule: Open_cases)
    case (hit b')
    then show ?thesis using miss by simp
  next
    case noext
    then show ?thesis using cand by (simp add: candidate_def Let_def)
  next
    case (reject b' slot')
    then have bb: "b' = b" "slot' = slot" using cand by simp_all
    then have "\<not> (fst (makeHash f b) \<noteq> [] \<and> slot = fst (makeHash f b))"
      using reject(3) by auto
    then show ?thesis using reject(4,5) bb by auto
  next
    case (accept b' h c)
    then have bb: "b' = b" "h = slot" using cand by simp_all
    then have ok: "fst (makeHash f b) \<noteq> [] \<and> slot = fst (makeHash f b)"
      using accept(3,4,5) is_digest_nonempty [OF is_digest_Sum256, of c]
      by (simp add: makeHash_fst)
    have "r \<noteq> Inl (NotExist name)"
      unfolding accept(7) bb(1) using cand by (rule fs_Open_not_NotExist)
    moreover have "\<not> isl r \<longleftrightarrow> (\<exists>c'. later b = Some c')"
      unfolding accept(7) bb(1) using accept(3) bb(1) by (intro later) simp
    ultimately show ?thesis using ok accept(8) bb by simp
  qed
  then show ?thesis using o fresh agree by blast
qed

text \<open>
  The theorem at the wrong hashed name of the test suite, on the fresh adapter: both
  hypotheses hold, the file is read, and open returns its own error because the slot is
  not the digest, as digest() would tell. At the right hashed name the validation
  passes, and open fails all the same when the file is removed before the final open.
\<close>

theorem Open_validates_by_reading_witness:
  "base (New testdata) n_wrong = None \<and> candidate n_wrong = Some (p_base, d_wrong) \<and>
   fs (New testdata) p_base = Some c_base \<and> EncodeToString (Sum256 c_base) = d_base \<and>
   hash (New testdata) p_base = None \<and>
   Hash (New testdata) p_base = Some (d_base, run testdata [CallHash p_base]) \<and>
   (\<exists>f'. Open (New testdata) n_wrong testdata = Some (Inl (NotExist n_wrong), f') \<and>
      take (Suc (length (io (New testdata)))) (io f') =
        io (New testdata) @ [ReadFileCall p_base]) \<and>
   base (New testdata) n_base = None \<and> candidate n_base = Some (p_base, d_base) \<and>
   removed p_base = None \<and>
   (\<exists>r f'. Open (New testdata) n_base removed = Some (r, f') \<and> isl r \<and>
      r \<noteq> Inl (NotExist n_base))"
proof -
  have m: "base (New testdata) n_wrong = None" and u: "hash (New testdata) p_base = None"
    and m2: "base (New testdata) n_base = None"
    by (simp_all add: New_def)
  have c: "fs (New testdata) p_base = Some c_base" by (simp add: New_def testdata_def)
  have h: "Hash (New testdata) p_base = Some (d_base, run testdata [CallHash p_base])"
    by (simp add: Hash_base run_Hash_base)
  have gone: "removed p_base = None" by (simp add: removed_def)
  obtain r f' where o: "Open (New testdata) n_wrong testdata = Some (r, f')"
    and iff: "r \<noteq> Inl (NotExist n_wrong) \<longleftrightarrow> ValidPath p_base \<and>
        (\<exists>c. fs (New testdata) p_base = Some c \<and> d_wrong = EncodeToString (Sum256 c))"
    and rd: "take (Suc (length (io (New testdata)))) (io f') =
        io (New testdata) @ [ReadFileCall p_base]"
    using Open_validates_by_reading [OF m candidate_n_wrong, of testdata] by blast
  have "r = Inl (NotExist n_wrong)" using iff c by (simp add: digest_base)
  then have first: "\<exists>f'. Open (New testdata) n_wrong testdata = Some (Inl (NotExist n_wrong), f') \<and>
      take (Suc (length (io (New testdata)))) (io f') =
        io (New testdata) @ [ReadFileCall p_base]"
    using o rd by blast
  obtain r2 f2 where o2: "Open (New testdata) n_base removed = Some (r2, f2)"
    and passes: "r2 \<noteq> Inl (NotExist n_base) \<longleftrightarrow> ValidPath p_base \<and>
        (\<exists>c. fs (New testdata) p_base = Some c \<and> d_base = EncodeToString (Sum256 c))"
    and opens: "\<not> isl r2 \<longleftrightarrow> ValidPath p_base \<and>
        (\<exists>c. fs (New testdata) p_base = Some c \<and> d_base = EncodeToString (Sum256 c)) \<and>
        (\<exists>c'. removed p_base = Some c')"
    using Open_validates_by_reading [OF m2 candidate_n_base, of removed] by blast
  have "isl r2" using opens gone by simp
  moreover have "r2 \<noteq> Inl (NotExist n_base)"
    using passes c ValidPath_p_base by (simp add: digest_base)
  ultimately have second: "\<exists>r f'. Open (New testdata) n_base removed = Some (r, f') \<and> isl r \<and>
      r \<noteq> Inl (NotExist n_base)"
    using o2 by blast
  show ?thesis
    using m u c h gone m2 first second candidate_n_wrong candidate_n_base digest_base by blast
qed

text \<open>
  C1 fails as stated. After \<^verbatim>\<open>Hash("testdata/base.ext")\<close> the digest of the file is cached.
  Opening the wrong hashed name of the test suite then reads the file a second time. And
  once the file has been overwritten, digest() still returns the cached token
  \<^verbatim>\<open>d476...\<close>, while open accepts the name that carries the token \<^verbatim>\<open>d9d4...\<close> of the new
  content: the validation did not use what digest() returns.
\<close>

theorem Open_validation_bypasses_cache:
  "hash (run testdata [CallHash p_base]) p_base = Some d_base \<and>
   base (run testdata [CallHash p_base]) n_wrong = None \<and>
   io (run testdata [CallHash p_base]) = [ReadFileCall p_base] \<and>
   io (run testdata [CallHash p_base, CallOpen n_wrong]) =
     [ReadFileCall p_base, ReadFileCall p_base] \<and>
   base (run testdata [CallHash p_base, Mutate edited]) n_edited = None \<and>
   map_option fst (Hash (run testdata [CallHash p_base, Mutate edited]) p_base) = Some d_base \<and>
   map_option fst (Open (run testdata [CallHash p_base, Mutate edited]) n_edited edited) =
     Some (Inr (File c_noext))"
proof -
  have "run testdata [CallHash p_base, CallOpen n_wrong] =
      exec (CallOpen n_wrong) (run testdata [CallHash p_base])"
    by (simp add: run_def)
  then have "io (run testdata [CallHash p_base, CallOpen n_wrong]) =
      [ReadFileCall p_base, ReadFileCall p_base]"
    by (simp add: fs_run_Hash_base Open_wrong_cached)
  moreover have "map_option fst (Hash (run testdata [CallHash p_base, Mutate edited]) p_base) =
      Some d_base"
    by (simp add: run_Hash_base_edited Hash_hit)
  ultimately show ?thesis
    by (simp add: Open_edited) (simp add: run_Hash_base run_Hash_base_edited)
qed

subsection \<open>C2: the two caches agree\<close>

text \<open>
  C2, as amended. After every history of digest, hashedName and open calls, with or
  without changes of the backing store in between: if the digest cache maps \<open>p\<close> to \<open>d\<close>,
  the reverse-name cache maps \<open>hashed p d\<close> to \<open>p\<close>; and every entry of the reverse-name
  cache maps a name \<open>hashed p d\<close>, for some digest token \<open>d\<close>, to a path \<open>p\<close> that has an entry
  in the digest cache. Both maps are written in one step of the model. The converse, that
  an entry for \<open>hashed p d\<close> implies the digest-cache entry \<open>d\<close> for \<open>p\<close>, holds for the
  histories in which the backing store does not change.
\<close>

theorem caches_agree:
  "(\<forall>p d. hash (run s acts) p = Some d \<longrightarrow> base (run s acts) (hashed p d) = Some p) \<and>
   (\<forall>n p. base (run s acts) n = Some p \<longrightarrow>
      hash (run s acts) p \<noteq> None \<and> (\<exists>d. is_digest d \<and> n = hashed p d)) \<and>
   ((\<forall>a\<in>set acts. keeps_store a) \<longrightarrow>
      (\<forall>p d. hash (run s acts) p = Some d \<longleftrightarrow> base (run s acts) (hashed p d) = Some p))"
proof -
  have inv: "cache_inv (run s acts)" by (rule run_cache_inv)
  have fwd: "\<forall>p d. hash (run s acts) p = Some d \<longrightarrow> base (run s acts) (hashed p d) = Some p"
    using inv unfolding cache_inv_def by blast
  have bwd: "\<forall>n p. base (run s acts) n = Some p \<longrightarrow>
      hash (run s acts) p \<noteq> None \<and> (\<exists>d. is_digest d \<and> n = hashed p d)"
    using inv is_digest_Sum256 unfolding cache_inv_def by blast
  have "\<forall>p d. hash (run s acts) p = Some d \<longleftrightarrow> base (run s acts) (hashed p d) = Some p"
    if "\<forall>a\<in>set acts. keeps_store a"
    using consistent_current [OF inv run_current [OF that]] unfolding consistent_def .
  with fwd bwd show ?thesis by blast
qed

text \<open>The theorem on the test data, after one digest call.\<close>

theorem caches_agree_witness:
  "keeps_store (CallHash p_base) \<and>
   hash (run testdata [CallHash p_base]) p_base = Some d_base \<and>
   base (run testdata [CallHash p_base]) (hashed p_base d_base) = Some p_base \<and>
   is_digest d_base \<and> hashed p_base d_base = n_base \<and>
   (hash (run testdata [CallHash p_base]) p_base = Some d_noext \<longleftrightarrow>
    base (run testdata [CallHash p_base]) (hashed p_base d_noext) = Some p_base)"
proof -
  have h: "hash (run testdata [CallHash p_base]) p_base = Some d_base"
    by (simp add: run_Hash_base)
  have "(\<forall>a\<in>set [CallHash p_base]. keeps_store a)" by simp
  then have c: "\<forall>p d. hash (run testdata [CallHash p_base]) p = Some d \<longleftrightarrow>
      base (run testdata [CallHash p_base]) (hashed p d) = Some p"
    using caches_agree [of testdata "[CallHash p_base]"] by blast
  have "is_digest d_base"
    using is_digest_Sum256 [of c_base] by (simp only: digest_base)
  moreover have "hashed p_base d_base = n_base" by (simp add: hashed_p_base)
  ultimately show ?thesis using h c by simp
qed

text \<open>
  C2 fails as stated. \<^verbatim>\<open>testdata/base.ext\<close> is hashed, then overwritten, then opened under
  the hashed name of its new content. The reverse-name cache still maps the old hashed
  name, with token \<^verbatim>\<open>d476...\<close>, to the path, while the digest cache holds \<^verbatim>\<open>d9d4...\<close> for it.
\<close>

theorem stale_hashed_name_stays:
  "hashed p_base d_base = n_base \<and>
   base (run testdata [CallHash p_base, Mutate edited, CallOpen n_edited]) n_base = Some p_base \<and>
   hash (run testdata [CallHash p_base, Mutate edited, CallOpen n_edited]) p_base = Some d_noext"
  by (simp add: run_Open_edited hashed_p_base)

subsection \<open>C3: the caches only grow\<close>

text \<open>
  C3, as amended. In every state a history reaches, and for every next step: no entry of
  either cache is removed, and an entry of the reverse-name cache never changes. digest()
  and hashedName() never compute the digest of a cached path again: called on a cached
  path they leave the adapter as it is, the record of backing-store calls included. Only
  open can change a cached digest. On a miss of the reverse-name cache it reads the
  candidate path from the backing store, cached or not, and when the digest slot is the
  digest of the bytes read it stores that digest. So open replaces the cached digest of a
  path exactly when the requested name misses the reverse-name cache, the path is its
  candidate, and its digest slot is the digest of the current content of the file and is
  not the cached digest. In a history in which the backing store does not change, no
  cached digest ever changes.
\<close>

theorem cache_entries_kept:
  assumes "f = run s acts"
  shows "dom (hash f) \<subseteq> dom (hash (exec a f)) \<and> dom (base f) \<subseteq> dom (base (exec a f)) \<and>
     (\<forall>n p. base f n = Some p \<longrightarrow> base (exec a f) n = Some p) \<and>
     (\<forall>p d. hash f p = Some d \<longrightarrow>
        hash (exec a f) p = Some d \<or>
        (\<exists>name c. (a = CallOpen name \<or> (\<exists>s'. a = RaceOpen name s')) \<and> fs f p = Some c \<and>
           EncodeToString (Sum256 c) \<noteq> d \<and>
           hash (exec a f) p = Some (EncodeToString (Sum256 c)))) \<and>
     (\<forall>p. hash f p \<noteq> None \<longrightarrow> exec (CallHash p) f = f \<and> exec (CallName p) f = f) \<and>
     (\<forall>name. exec (CallOpen name) f = exec (RaceOpen name (fs f)) f) \<and>
     (\<forall>name later b slot. base f name = None \<and> candidate name = Some (b, slot) \<longrightarrow>
        take (Suc (length (io f))) (io (exec (RaceOpen name later) f)) =
          io f @ [ReadFileCall b]) \<and>
     (\<forall>name later p d. hash f p = Some d \<longrightarrow>
        (hash (exec (RaceOpen name later) f) p \<noteq> Some d \<longleftrightarrow>
           base f name = None \<and>
           (\<exists>c. candidate name = Some (p, EncodeToString (Sum256 c)) \<and> ValidPath p \<and>
              fs f p = Some c \<and> EncodeToString (Sum256 c) \<noteq> d))) \<and>
     (\<forall>name later p c. base f name = None \<and>
        candidate name = Some (p, EncodeToString (Sum256 c)) \<and> ValidPath p \<and>
        fs f p = Some c \<longrightarrow>
        hash (exec (RaceOpen name later) f) p = Some (EncodeToString (Sum256 c))) \<and>
     ((\<forall>a\<in>set acts. keeps_store a) \<longrightarrow>
        (\<forall>p d. hash f p = Some d \<longrightarrow> hash (exec a f) p = Some d))"
proof -
  have inv: "cache_inv f" unfolding assms by (rule run_cache_inv)
  note g = step_growth [OF inv, of a]
  have keep: "\<forall>n p. base f n = Some p \<longrightarrow> base (exec a f) n = Some p"
    using g by blast
  have change: "\<forall>p d. hash f p = Some d \<longrightarrow>
        hash (exec a f) p = Some d \<or>
        (\<exists>name c. (a = CallOpen name \<or> (\<exists>s'. a = RaceOpen name s')) \<and> fs f p = Some c \<and>
           EncodeToString (Sum256 c) \<noteq> d \<and>
           hash (exec a f) p = Some (EncodeToString (Sum256 c)))"
    using g by blast
  have d1: "dom (hash f) \<subseteq> dom (hash (exec a f))"
    using change by (auto simp: dom_def)
  have d2: "dom (base f) \<subseteq> dom (base (exec a f))"
    using keep by (auto simp: dom_def)
  have noop: "\<forall>p. hash f p \<noteq> None \<longrightarrow> exec (CallHash p) f = f \<and> exec (CallName p) f = f"
    using cached_Hash_noop by blast
  have same: "\<forall>name. exec (CallOpen name) f = exec (RaceOpen name (fs f)) f"
    using exec_CallOpen by blast
  have reads: "\<forall>name later b slot. base f name = None \<and> candidate name = Some (b, slot) \<longrightarrow>
        take (Suc (length (io f))) (io (exec (RaceOpen name later) f)) =
          io f @ [ReadFileCall b]"
    using Open_reads_candidate by blast
  have repl: "\<forall>name later p d. hash f p = Some d \<longrightarrow>
        (hash (exec (RaceOpen name later) f) p \<noteq> Some d \<longleftrightarrow>
           base f name = None \<and>
           (\<exists>c. candidate name = Some (p, EncodeToString (Sum256 c)) \<and> ValidPath p \<and>
              fs f p = Some c \<and> EncodeToString (Sum256 c) \<noteq> d))"
    using Open_replaces_iff by blast
  have stores: "\<forall>name later p c. base f name = None \<and>
        candidate name = Some (p, EncodeToString (Sum256 c)) \<and> ValidPath p \<and>
        fs f p = Some c \<longrightarrow>
        hash (exec (RaceOpen name later) f) p = Some (EncodeToString (Sum256 c))"
    using Open_stores_fresh by blast
  have static: "(\<forall>a\<in>set acts. keeps_store a) \<longrightarrow>
        (\<forall>p d. hash f p = Some d \<longrightarrow> hash (exec a f) p = Some d)"
  proof (intro impI allI)
    fix p d
    assume st: "\<forall>a\<in>set acts. keeps_store a" and h: "hash f p = Some d"
    obtain c where c: "fs f p = Some c" "d = EncodeToString (Sum256 c)"
      using static_cached_digest [OF assms st h] by blast
    have "hash (exec a f) p = Some d \<or>
        (\<exists>name c. (a = CallOpen name \<or> (\<exists>s'. a = RaceOpen name s')) \<and> fs f p = Some c \<and>
           EncodeToString (Sum256 c) \<noteq> d \<and>
           hash (exec a f) p = Some (EncodeToString (Sum256 c)))"
      using change h by blast
    then show "hash (exec a f) p = Some d" using c by auto
  qed
  show ?thesis
    by (intro conjI d1 d2 keep change noop same reads repl stores static)
qed

text \<open>
  The theorem on the test data. After one digest call, a second call for the same file
  keeps both entries and leaves the adapter as it is, with its one read. After the file
  has been overwritten, opening the hashed name of the new content reads the file and
  stores the new digest in place of the cached one.
\<close>

theorem cache_entries_kept_witness:
  "hash (run testdata [CallHash p_base]) p_base = Some d_base \<and>
   hash (exec (CallName p_base) (run testdata [CallHash p_base])) p_base = Some d_base \<and>
   base (run testdata [CallHash p_base]) n_base = Some p_base \<and>
   base (exec (CallName p_base) (run testdata [CallHash p_base])) n_base = Some p_base \<and>
   exec (CallHash p_base) (run testdata [CallHash p_base]) = run testdata [CallHash p_base] \<and>
   exec (CallName p_base) (run testdata [CallHash p_base]) = run testdata [CallHash p_base] \<and>
   io (run testdata [CallHash p_base]) = [ReadFileCall p_base] \<and>
   hash (run testdata [CallHash p_base, Mutate edited]) p_base = Some d_base \<and>
   base (run testdata [CallHash p_base, Mutate edited]) n_edited = None \<and>
   candidate n_edited = Some (p_base, d_noext) \<and>
   fs (run testdata [CallHash p_base, Mutate edited]) p_base = Some c_noext \<and>
   EncodeToString (Sum256 c_noext) = d_noext \<and>
   hash (exec (CallOpen n_edited) (run testdata [CallHash p_base, Mutate edited])) p_base =
     Some d_noext \<and>
   take 2 (io (exec (CallOpen n_edited) (run testdata [CallHash p_base, Mutate edited]))) =
     [ReadFileCall p_base, ReadFileCall p_base]"
proof -
  define f where "f = run testdata [CallHash p_base]"
  define g where "g = run testdata [CallHash p_base, Mutate edited]"
  have h: "hash f p_base = Some d_base" and b: "base f n_base = Some p_base"
    and i: "io f = [ReadFileCall p_base]"
    unfolding f_def by (simp_all add: run_Hash_base)
  note tf = cache_entries_kept [OF f_def, of "CallName p_base"]
  note tf2 = tf [THEN conjunct2, THEN conjunct2]
  note tf4 = tf2 [THEN conjunct2, THEN conjunct2]
  have kb: "base (exec (CallName p_base) f) n_base = Some p_base"
    using tf2 [THEN conjunct1, rule_format, OF b] .
  have "hash f p_base \<noteq> None" using h by simp
  then have noop: "exec (CallHash p_base) f = f" "exec (CallName p_base) f = f"
    using tf4 [THEN conjunct1, rule_format, of p_base] by simp_all
  have kh: "hash (exec (CallName p_base) f) p_base = Some d_base"
    using noop(2) h by simp
  have gh: "hash g p_base = Some d_base" and gb: "base g n_edited = None"
    and gc: "fs g p_base = Some c_noext" and gi: "io g = [ReadFileCall p_base]"
    unfolding g_def run_Hash_base_edited by (simp_all add: edited_def)
  have cand: "candidate n_edited = Some (p_base, EncodeToString (Sum256 c_noext))"
    unfolding digest_noext by (rule candidate_n_edited)
  note tg = cache_entries_kept [OF g_def, of "CallOpen n_edited"]
  note tg2 = tg [THEN conjunct2, THEN conjunct2]
  note tg5 = tg2 [THEN conjunct2, THEN conjunct2, THEN conjunct2]
  note tg6 = tg5 [THEN conjunct2]
  note tg8 = tg6 [THEN conjunct2, THEN conjunct2]
  have same: "exec (CallOpen n_edited) g = exec (RaceOpen n_edited (fs g)) g"
    using tg5 [THEN conjunct1, rule_format, of n_edited] .
  have "hash (exec (RaceOpen n_edited (fs g)) g) p_base = Some (EncodeToString (Sum256 c_noext))"
    by (rule tg8 [THEN conjunct1, rule_format,
          OF conjI [OF gb conjI [OF cand conjI [OF ValidPath_p_base gc]]]])
  then have st: "hash (exec (CallOpen n_edited) g) p_base = Some d_noext"
    unfolding same digest_noext .
  have "take (Suc (length (io g))) (io (exec (RaceOpen n_edited (fs g)) g)) =
      io g @ [ReadFileCall p_base]"
    by (rule tg6 [THEN conjunct1, rule_format, OF conjI [OF gb cand]])
  then have rd: "take 2 (io (exec (CallOpen n_edited) g)) =
      [ReadFileCall p_base, ReadFileCall p_base]"
    unfolding same gi by (simp add: numeral_2_eq_2)
  have "hash f p_base = Some d_base \<and> hash (exec (CallName p_base) f) p_base = Some d_base \<and>
      base f n_base = Some p_base \<and> base (exec (CallName p_base) f) n_base = Some p_base \<and>
      exec (CallHash p_base) f = f \<and> exec (CallName p_base) f = f \<and>
      io f = [ReadFileCall p_base] \<and> hash g p_base = Some d_base \<and>
      base g n_edited = None \<and> candidate n_edited = Some (p_base, d_noext) \<and>
      fs g p_base = Some c_noext \<and> EncodeToString (Sum256 c_noext) = d_noext \<and>
      hash (exec (CallOpen n_edited) g) p_base = Some d_noext \<and>
      take 2 (io (exec (CallOpen n_edited) g)) = [ReadFileCall p_base, ReadFileCall p_base]"
    by (intro conjI h kh b kb noop i gh gb candidate_n_edited gc digest_noext st rd)
  then show ?thesis unfolding f_def g_def .
qed

text \<open>
  C3 fails as stated. With the digest of \<^verbatim>\<open>testdata/base.ext\<close> cached, the file is
  overwritten and opened under the hashed name of the new content: the cached digest is
  replaced. And with the store unchanged, opening a wrong hashed name computes the digest
  of the cached path again, with a second read of the file.
\<close>

theorem Open_overwrites_digest:
  "hash (run testdata [CallHash p_base, Mutate edited]) p_base = Some d_base \<and>
   hash (exec (CallOpen n_edited) (run testdata [CallHash p_base, Mutate edited])) p_base =
     Some d_noext \<and>
   io (run testdata [CallHash p_base]) = [ReadFileCall p_base] \<and>
   io (exec (CallOpen n_edited) (run testdata [CallHash p_base, Mutate edited])) =
     [ReadFileCall p_base, ReadFileCall p_base, OpenCall p_base] \<and>
   io (exec (CallOpen n_wrong) (run testdata [CallHash p_base])) =
     [ReadFileCall p_base, ReadFileCall p_base]"
  by (simp add: Open_edited Open_wrong_cached fs_run_Hash_base fs_run_Hash_base_edited)
     (simp add: run_Hash_base run_Hash_base_edited)

subsection \<open>C4: the naming rule\<close>

text \<open>
  C4. A path splits into a stem and its extension \<^verbatim>\<open>filepath.Ext\<close>, which is empty or a
  dot followed by characters that are neither dots nor separators. Whenever digest(p)
  returns a non-empty token \<open>d\<close>, hashedName(p) returns the stem, a dot, \<open>d\<close> and the
  extension, which is \<open>p\<close>, a dot and \<open>d\<close> when \<open>p\<close> has no extension; and hashedName(p)
  returns the empty string exactly when digest(p) does. Both calls leave the same adapter.
\<close>

theorem Name_naming_rule:
  assumes "Hash f p = Some (d, f')"
  shows "take (length p - length (Ext p)) p @ Ext p = p \<and>
     (Ext p = [] \<or> (\<exists>s. Ext p = CHR ''.'' # s \<and> CHR ''.'' \<notin> set s \<and> CHR ''/'' \<notin> set s)) \<and>
     (d \<noteq> [] \<longrightarrow>
        Name f p = Some (take (length p - length (Ext p)) p @ ''.'' @ d @ Ext p, f')) \<and>
     (d \<noteq> [] \<and> Ext p = [] \<longrightarrow> Name f p = Some (p @ ''.'' @ d, f')) \<and>
     (\<exists>n. Name f p = Some (n, f') \<and> (n = [] \<longleftrightarrow> d = []))"
proof -
  have shape: "Ext p = [] \<or> (\<exists>s. Ext p = CHR ''.'' # s \<and> CHR ''.'' \<notin> set s \<and> CHR ''/'' \<notin> set s)"
  proof (cases "Ext p = []")
    case False
    then obtain s where "Ext p = CHR ''.'' # s" "\<forall>c\<in>set s. plain c"
      using Ext_shape by blast
    then show ?thesis by (auto simp: plain_def)
  qed simp
  have name: "Name f p = Some (if d = [] then [] else hashed p d, f')"
    using assms by (simp add: Name_eq)
  show ?thesis
    using shape name stem_Ext [of p] by (auto simp: hashed_def)
qed

text \<open>The theorem on the two files of the test suite, with the names its tests expect.\<close>

theorem Name_naming_rule_witness:
  "Hash (New testdata) p_base = Some (d_base, run testdata [CallHash p_base]) \<and>
   Name (New testdata) p_base = Some (n_base, run testdata [CallHash p_base]) \<and>
   Hash (New testdata) p_noext = Some (d_noext, run testdata [CallHash p_noext]) \<and>
   Ext p_noext = [] \<and>
   Name (New testdata) p_noext = Some (n_noext, run testdata [CallHash p_noext])"
proof -
  have h1: "Hash (New testdata) p_base = Some (d_base, run testdata [CallHash p_base])"
    by (simp add: Hash_base run_Hash_base)
  have h2: "Hash (New testdata) p_noext = Some (d_noext, run testdata [CallHash p_noext])"
    by (simp add: run_def)
       (simp add: New_def Hash_miss makeHash_fst ValidPath_p_noext testdata_def digest_noext Let_def)
  show ?thesis
    using h1 h2 Name_naming_rule [OF h1] Name_naming_rule [OF h2]
    by (simp add: Ext_p_base Ext_p_noext)
qed

subsection \<open>C5: opening a hashed name\<close>

text \<open>
  C5. After any history, for every path that the backing store can read, hashedName
  returns a non-empty name, and opening that name succeeds with a handle on the bytes
  that the backing store has at the path. The name is in the reverse-name cache by then,
  so open calls the backing store once, and the third argument of the model plays no
  part.
\<close>

theorem Open_hashed_name:
  assumes "f = run s acts" and "ValidPath p" and "fs f p = Some c"
  shows "\<exists>n f1 f2. Name f p = Some (n, f1) \<and> n \<noteq> [] \<and>
     Open f1 n later = Some (Inr (File c), f2)"
proof -
  have inv: "cache_inv f" unfolding assms(1) by (rule run_cache_inv)
  obtain h f1 where h: "Hash f p = Some (h, f1)"
    using Hash_total [of f p] by (cases "Hash f p") auto
  have ne: "fst (makeHash f p) \<noteq> []"
    using assms(2,3) by (simp add: makeHash_Some)
  from h have "h \<noteq> [] \<and> base f1 (hashed p h) = Some p \<and> fs f1 = fs f"
  proof (cases rule: Hash_cases)
    case hit
    then obtain b where "h = EncodeToString (Sum256 b)" "base f (hashed p h) = Some p"
      using inv unfolding cache_inv_def by blast
    then show ?thesis
      using hit is_digest_nonempty [OF is_digest_Sum256, of b] by simp
  next
    case fail
    then show ?thesis using ne by simp
  next
    case (new c')
    then show ?thesis
      using is_digest_nonempty [OF is_digest_Sum256, of c'] by simp
  qed
  then have "Name f p = Some (hashed p h, f1)"
    and "Open f1 (hashed p h) later = Some (Inr (File c), f1\<lparr>io := io f1 @ [OpenCall p]\<rparr>)"
    using h assms(2,3) by (simp_all add: Name_eq Open_hit openBacking_def fs_Open_def)
  then show ?thesis using hashed_nonempty [of p h] by blast
qed

text \<open>The theorem on \<^verbatim>\<open>testdata/base.ext\<close>, from the fresh adapter.\<close>

theorem Open_hashed_name_witness:
  "ValidPath p_base \<and> fs (run testdata []) p_base = Some c_base \<and>
   Name (run testdata []) p_base = Some (n_base, run testdata [CallHash p_base]) \<and>
   (\<exists>n f1 f2. Name (run testdata []) p_base = Some (n, f1) \<and> n \<noteq> [] \<and>
      Open f1 n removed = Some (Inr (File c_base), f2))"
proof -
  have r: "run testdata [] = New testdata" by (simp add: run_def)
  have c: "fs (run testdata []) p_base = Some c_base"
    unfolding r by (simp add: New_def testdata_def)
  have "Name (run testdata []) p_base = Some (n_base, run testdata [CallHash p_base])"
    unfolding r by (simp add: Name_eq Hash_base run_Hash_base hashed_p_base)
  then show ?thesis
    using c ValidPath_p_base Open_hashed_name [OF refl ValidPath_p_base c, of removed] by blast
qed

subsection \<open>C6: when open fails\<close>

text \<open>
  C6, as amended. On a miss of the reverse-name cache, open returns its own error, the
  \<^verbatim>\<open>PathError\<close> with \<^verbatim>\<open>Op\<close> \<^verbatim>\<open>"open"\<close>, the requested name and \<^verbatim>\<open>ErrNotExist\<close>, in precisely
  the cases of the claim: the name has no extension, the candidate plain path cannot be
  read, or the digest slot differs from the digest of the bytes read. There is one
  further case of failure on a miss: the name passes the validation and the final open
  of the plain path fails, because the file has gone between the two calls on the backing
  store; open then returns the error of the backing store, which names the plain path and
  not the requested name. On a hit open validates nothing: its result is what the
  backing store answers when it opens the mapped plain path. When the backing store does
  not change during the call, open fails on a miss in precisely the cases of the claim,
  with its own error; and when it has not changed during the history either, the same
  holds for hits and misses alike.
\<close>

theorem Open_failure_cases:
  "\<exists>r f'. Open f name later = Some (r, f') \<and>
     (case base f name of
        Some b \<Rightarrow> r = fs_Open (fs f) b
      | None \<Rightarrow>
          (r = Inl \<lparr>Op = ''open'', Path = name, Err = ErrNotExist\<rparr> \<longleftrightarrow>
             Ext name = [] \<or>
             (\<exists>b slot. candidate name = Some (b, slot) \<and>
                (case fs_ReadFile (fs f) b of
                   Inl e \<Rightarrow> True
                 | Inr c \<Rightarrow> slot \<noteq> EncodeToString (Sum256 c)))) \<and>
          (isl r \<longleftrightarrow>
             Ext name = [] \<or>
             (\<exists>b slot. candidate name = Some (b, slot) \<and>
                (case fs_ReadFile (fs f) b of
                   Inl e \<Rightarrow> True
                 | Inr c \<Rightarrow> slot \<noteq> EncodeToString (Sum256 c) \<or> isl (fs_Open later b)))) \<and>
          (r \<noteq> Inl \<lparr>Op = ''open'', Path = name, Err = ErrNotExist\<rparr> \<longrightarrow>
             (\<exists>b slot. candidate name = Some (b, slot) \<and> b \<noteq> name \<and> r = fs_Open later b)) \<and>
          (later = fs f \<longrightarrow>
             (isl r \<longleftrightarrow>
                Ext name = [] \<or>
                (\<exists>b slot. candidate name = Some (b, slot) \<and>
                   (case fs_ReadFile (fs f) b of
                      Inl e \<Rightarrow> True
                    | Inr c \<Rightarrow> slot \<noteq> EncodeToString (Sum256 c)))) \<and>
             (isl r \<longrightarrow> r = Inl \<lparr>Op = ''open'', Path = name, Err = ErrNotExist\<rparr>))) \<and>
     ((\<exists>s acts. f = run s acts \<and> (\<forall>a\<in>set acts. keeps_store a)) \<and>
      (base f name = None \<longrightarrow> later = fs f) \<longrightarrow>
        (isl r \<longleftrightarrow>
           Ext name = [] \<or>
           (\<exists>b slot. candidate name = Some (b, slot) \<and>
              (case fs_ReadFile (fs f) b of
                 Inl e \<Rightarrow> True
               | Inr c \<Rightarrow> slot \<noteq> EncodeToString (Sum256 c)))) \<and>
        (isl r \<longrightarrow> r = Inl \<lparr>Op = ''open'', Path = name, Err = ErrNotExist\<rparr>))"
proof -
  let ?fails = "Ext name = [] \<or>
     (\<exists>b slot. candidate name = Some (b, slot) \<and>
        (case fs_ReadFile (fs f) b of
           Inl e \<Rightarrow> True
         | Inr c \<Rightarrow> slot \<noteq> EncodeToString (Sum256 c)))"
  let ?gone = "Ext name = [] \<or>
     (\<exists>b slot. candidate name = Some (b, slot) \<and>
        (case fs_ReadFile (fs f) b of
           Inl e \<Rightarrow> True
         | Inr c \<Rightarrow> slot \<noteq> EncodeToString (Sum256 c) \<or> isl (fs_Open later b)))"
  let ?err = "Inl \<lparr>Op = ''open'', Path = name, Err = ErrNotExist\<rparr> :: PathError + File"
  let ?store = "\<lambda>r. \<exists>b slot. candidate name = Some (b, slot) \<and> b \<noteq> name \<and> r = fs_Open later b"
  obtain r f' where o: "Open f name later = Some (r, f')"
    using Open_total [of f name later] by (cases "Open f name later") auto
  from o have cold: "base f name = None \<longrightarrow>
      (r = ?err \<longleftrightarrow> ?fails) \<and> (isl r \<longleftrightarrow> ?gone) \<and> (r \<noteq> ?err \<longrightarrow> ?store r) \<and>
      (later = fs f \<longrightarrow> (isl r \<longleftrightarrow> ?fails) \<and> (isl r \<longrightarrow> r = ?err))"
  proof (cases rule: Open_cases)
    case (hit b)
    then show ?thesis by simp
  next
    case noext
    then show ?thesis by (simp add: NotExist_def)
  next
    case (reject b slot)
    have "Ext name \<noteq> []" using reject(2) candidate_None [of name] by auto
    moreover have "case fs_ReadFile (fs f) b of
        Inl e \<Rightarrow> True | Inr c \<Rightarrow> slot \<noteq> EncodeToString (Sum256 c)"
      using reject(3) rejected_iff [of f b slot] by simp
    then have "case fs_ReadFile (fs f) b of
        Inl e \<Rightarrow> True | Inr c \<Rightarrow> slot \<noteq> EncodeToString (Sum256 c) \<or> isl (fs_Open later b)"
      by (simp split: sum.splits)
    ultimately show ?thesis
      using reject rejected_iff [of f b slot] by (simp add: NotExist_def)
  next
    case (accept b h c)
    have ext: "Ext name \<noteq> []" using accept(2) candidate_None [of name] by auto
    have rd: "fs_ReadFile (fs f) b = Inr c"
      using accept(3,4) by (simp add: fs_ReadFile_def fs_Open_def)
    have nf: "\<not> ?fails" using ext rd accept(2,5) by simp
    have ne: "r \<noteq> ?err"
      using fs_Open_not_NotExist [OF accept(2), of later] accept(7) by (simp add: NotExist_def)
    have gone: "isl r \<longleftrightarrow> ?gone" using ext rd accept(2,5,7) by simp
    have store: "?store r" using accept(2,7) candidate_neq [OF accept(2)] by simp
    have same: "\<not> isl r" if "later = fs f"
      using that accept(3,4,7) by (simp add: fs_Open_def)
    show ?thesis using nf ne gone store same by blast
  qed
  from o have warm: "\<forall>b. base f name = Some b \<longrightarrow> r = fs_Open (fs f) b"
    by (cases rule: Open_cases) simp_all
  have static: "(isl r \<longleftrightarrow> ?fails) \<and> (isl r \<longrightarrow> r = ?err)"
    if st: "\<exists>s acts. f = run s acts \<and> (\<forall>a\<in>set acts. keeps_store a)"
      and same: "base f name = None \<longrightarrow> later = fs f"
  proof (cases "base f name")
    case None
    then show ?thesis using cold same by blast
  next
    case (Some b)
    obtain s acts where f: "f = run s acts" and calls: "\<forall>a\<in>set acts. keeps_store a"
      using st by blast
    have "current f" unfolding f using calls by (rule run_current)
    then obtain d where d: "hash f b = Some d" "name = hashed b d"
      using Some unfolding current_def by blast
    obtain c where c: "ValidPath b" "fs f b = Some c" "d = EncodeToString (Sum256 c)"
      using static_cached_digest [OF f calls d(1)] by blast
    have cand: "candidate name = Some (b, d)"
      unfolding d(2) c(3) using digest_plain [of c] by (rule candidate_hashed)
    then have "Ext name \<noteq> []" using candidate_None [of name] by auto
    moreover have "fs_ReadFile (fs f) b = Inr c"
      using c(1,2) by (simp add: fs_ReadFile_def fs_Open_def)
    moreover have "r = Inr (File c)"
      using warm Some c(1,2) by (simp add: fs_Open_def)
    ultimately show ?thesis using cand c(3) by simp
  qed
  have branch: "case base f name of
        Some b \<Rightarrow> r = fs_Open (fs f) b
      | None \<Rightarrow> (r = ?err \<longleftrightarrow> ?fails) \<and> (isl r \<longleftrightarrow> ?gone) \<and> (r \<noteq> ?err \<longrightarrow> ?store r) \<and>
          (later = fs f \<longrightarrow> (isl r \<longleftrightarrow> ?fails) \<and> (isl r \<longrightarrow> r = ?err))"
  proof (cases "base f name")
    case None
    show ?thesis unfolding None option.case by (rule mp [OF cold None])
  next
    case (Some b)
    have "r = fs_Open (fs f) b" using warm Some by blast
    then show ?thesis unfolding Some option.case .
  qed
  have st: "(\<exists>s acts. f = run s acts \<and> (\<forall>a\<in>set acts. keeps_store a)) \<and>
      (base f name = None \<longrightarrow> later = fs f) \<longrightarrow>
      (isl r \<longleftrightarrow> ?fails) \<and> (isl r \<longrightarrow> r = ?err)"
  proof
    assume a: "(\<exists>s acts. f = run s acts \<and> (\<forall>a\<in>set acts. keeps_store a)) \<and>
      (base f name = None \<longrightarrow> later = fs f)"
    show "(isl r \<longleftrightarrow> ?fails) \<and> (isl r \<longrightarrow> r = ?err)"
      using a [THEN conjunct1] a [THEN conjunct2] by (rule static)
  qed
  show ?thesis
    by (rule exI [of _ r], rule exI [of _ f'], rule conjI [OF o conjI [OF branch st]])
qed

text \<open>
  The theorem on the test suite. On the fresh adapter a name without extension and the
  wrong hashed name both fail, with the requested name in the error; the right hashed
  name fails with the plain path in the error when the file is removed between the read
  and the final open; and after hashedName, with the store unchanged, the hashed name is
  a hit and opens.
\<close>

theorem Open_failure_cases_witness:
  "base (New testdata) p_noext = None \<and> Ext p_noext = [] \<and>
   (\<exists>f'. Open (New testdata) p_noext testdata =
      Some (Inl \<lparr>Op = ''open'', Path = p_noext, Err = ErrNotExist\<rparr>, f')) \<and>
   base (New testdata) n_wrong = None \<and> candidate n_wrong = Some (p_base, d_wrong) \<and>
   fs_ReadFile (fs (New testdata)) p_base = Inr c_base \<and>
   d_wrong \<noteq> EncodeToString (Sum256 c_base) \<and>
   (\<exists>f'. Open (New testdata) n_wrong testdata =
      Some (Inl \<lparr>Op = ''open'', Path = n_wrong, Err = ErrNotExist\<rparr>, f')) \<and>
   base (New testdata) n_base = None \<and> candidate n_base = Some (p_base, d_base) \<and>
   d_base = EncodeToString (Sum256 c_base) \<and>
   (\<exists>f'. Open (New testdata) n_base removed =
      Some (Inl \<lparr>Op = ''open'', Path = p_base, Err = ErrNotExist\<rparr>, f')) \<and>
   keeps_store (CallName p_base) \<and>
   base (run testdata [CallName p_base]) n_base = Some p_base \<and>
   (\<exists>f'. Open (run testdata [CallName p_base]) n_base testdata =
      Some (Inr (File c_base), f'))"
proof -
  have miss: "\<exists>r f'. Open f name later = Some (r, f') \<and>
      (r = Inl \<lparr>Op = ''open'', Path = name, Err = ErrNotExist\<rparr> \<longleftrightarrow>
         Ext name = [] \<or>
         (\<exists>b slot. candidate name = Some (b, slot) \<and>
            (case fs_ReadFile (fs f) b of
               Inl e \<Rightarrow> True
             | Inr c \<Rightarrow> slot \<noteq> EncodeToString (Sum256 c)))) \<and>
      (r \<noteq> Inl \<lparr>Op = ''open'', Path = name, Err = ErrNotExist\<rparr> \<longrightarrow>
         (\<exists>b slot. candidate name = Some (b, slot) \<and> b \<noteq> name \<and> r = fs_Open later b))"
    if "base f name = None" for f name later
    using Open_failure_cases [of f name later] unfolding that option.case by blast
  have hit: "\<exists>r f'. Open f name later = Some (r, f') \<and> r = fs_Open (fs f) b"
    if "base f name = Some b" for f name later b
    using Open_failure_cases [of f name later] unfolding that option.case by blast
  have b1: "base (New testdata) p_noext = None" and b2: "base (New testdata) n_wrong = None"
    and b4: "base (New testdata) n_base = None"
    by (simp_all add: New_def)
  have rd: "fs_ReadFile (fs (New testdata)) p_base = Inr c_base"
    by (simp add: New_def fs_ReadFile_def fs_Open_def ValidPath_p_base testdata_def)
  have ne: "d_wrong \<noteq> EncodeToString (Sum256 c_base)"
    by (simp add: digest_base)
  have eq: "d_base = EncodeToString (Sum256 c_base)"
    by (simp add: digest_base)
  have first: "\<exists>f'. Open (New testdata) p_noext testdata =
      Some (Inl \<lparr>Op = ''open'', Path = p_noext, Err = ErrNotExist\<rparr>, f')"
  proof -
    from miss [OF b1, of testdata]
    obtain r f' where o: "Open (New testdata) p_noext testdata = Some (r, f')"
      and own: "r = Inl \<lparr>Op = ''open'', Path = p_noext, Err = ErrNotExist\<rparr> \<longleftrightarrow>
         Ext p_noext = [] \<or>
         (\<exists>b slot. candidate p_noext = Some (b, slot) \<and>
            (case fs_ReadFile (fs (New testdata)) b of
               Inl e \<Rightarrow> True
             | Inr c \<Rightarrow> slot \<noteq> EncodeToString (Sum256 c)))"
      by (elim exE conjE)
    have re: "r = Inl \<lparr>Op = ''open'', Path = p_noext, Err = ErrNotExist\<rparr>"
      unfolding own Ext_p_noext by simp
    show ?thesis using o unfolding re by (rule exI)
  qed
  have second: "\<exists>f'. Open (New testdata) n_wrong testdata =
      Some (Inl \<lparr>Op = ''open'', Path = n_wrong, Err = ErrNotExist\<rparr>, f')"
  proof -
    from miss [OF b2, of testdata]
    obtain r f' where o: "Open (New testdata) n_wrong testdata = Some (r, f')"
      and own: "r = Inl \<lparr>Op = ''open'', Path = n_wrong, Err = ErrNotExist\<rparr> \<longleftrightarrow>
         Ext n_wrong = [] \<or>
         (\<exists>b slot. candidate n_wrong = Some (b, slot) \<and>
            (case fs_ReadFile (fs (New testdata)) b of
               Inl e \<Rightarrow> True
             | Inr c \<Rightarrow> slot \<noteq> EncodeToString (Sum256 c)))"
      by (elim exE conjE)
    have re: "r = Inl \<lparr>Op = ''open'', Path = n_wrong, Err = ErrNotExist\<rparr>"
      unfolding own candidate_n_wrong using rd ne by simp
    show ?thesis using o unfolding re by (rule exI)
  qed
  have third: "\<exists>f'. Open (New testdata) n_base removed =
      Some (Inl \<lparr>Op = ''open'', Path = p_base, Err = ErrNotExist\<rparr>, f')"
  proof -
    from miss [OF b4, of removed]
    obtain r f' where o: "Open (New testdata) n_base removed = Some (r, f')"
      and own: "r = Inl \<lparr>Op = ''open'', Path = n_base, Err = ErrNotExist\<rparr> \<longleftrightarrow>
         Ext n_base = [] \<or>
         (\<exists>b slot. candidate n_base = Some (b, slot) \<and>
            (case fs_ReadFile (fs (New testdata)) b of
               Inl e \<Rightarrow> True
             | Inr c \<Rightarrow> slot \<noteq> EncodeToString (Sum256 c)))"
      and store: "r \<noteq> Inl \<lparr>Op = ''open'', Path = n_base, Err = ErrNotExist\<rparr> \<longrightarrow>
         (\<exists>b slot. candidate n_base = Some (b, slot) \<and> b \<noteq> n_base \<and>
            r = fs_Open removed b)"
      by (elim exE conjE)
    have ext: "Ext n_base \<noteq> []"
      using candidate_None [of n_base] unfolding candidate_n_base by simp
    have "r \<noteq> Inl \<lparr>Op = ''open'', Path = n_base, Err = ErrNotExist\<rparr>"
      unfolding own candidate_n_base using ext rd eq by simp
    then have "\<exists>b slot. candidate n_base = Some (b, slot) \<and> b \<noteq> n_base \<and>
        r = fs_Open removed b"
      using store by (rule rev_mp)
    then have "r = fs_Open removed p_base"
      unfolding candidate_n_base by simp
    then have re: "r = Inl \<lparr>Op = ''open'', Path = p_base, Err = ErrNotExist\<rparr>"
      by (simp add: fs_Open_def ValidPath_p_base removed_def)
    show ?thesis using o unfolding re by (rule exI)
  qed
  have b3: "base (run testdata [CallName p_base]) n_base = Some p_base"
    by (simp add: run_Name_base run_Hash_base)
  have fourth: "\<exists>f'. Open (run testdata [CallName p_base]) n_base testdata =
      Some (Inr (File c_base), f')"
  proof -
    from hit [OF b3, of testdata]
    obtain r f' where o: "Open (run testdata [CallName p_base]) n_base testdata = Some (r, f')"
      and h: "r = fs_Open (fs (run testdata [CallName p_base])) p_base"
      by (elim exE conjE)
    have re: "r = Inr (File c_base)"
      unfolding h run_Name_base run_Hash_base
      by (simp add: fs_Open_def ValidPath_p_base testdata_def)
    show ?thesis using o unfolding re by (rule exI)
  qed
  have k: "keeps_store (CallName p_base)" by simp
  show ?thesis
    by (intro conjI b1 Ext_p_noext first b2 candidate_n_wrong rd ne second b4
          candidate_n_base eq third k b3 fourth)
qed

text \<open>
  C6 fails as stated. \<^verbatim>\<open>testdata/base.ext\<close> is given its hashed name and then overwritten:
  the digest slot \<^verbatim>\<open>d476...\<close> of the name is not the digest \<^verbatim>\<open>d9d4...\<close> of what the file
  now holds, and open succeeds all the same, with the new bytes. When the file is removed
  instead, open fails with the error of the backing store, which carries the plain path
  and not the requested name.
\<close>

theorem Open_serves_stale_name:
  "base (run testdata [CallName p_base, Mutate edited]) n_base = Some p_base \<and>
   candidate n_base = Some (p_base, d_base) \<and>
   fs_ReadFile edited p_base = Inr c_noext \<and>
   EncodeToString (Sum256 c_noext) = d_noext \<and>
   map_option fst (Open (run testdata [CallName p_base, Mutate edited]) n_base edited) =
     Some (Inr (File c_noext)) \<and>
   map_option fst (Open (run testdata [CallName p_base, Mutate removed]) n_base removed) =
     Some (Inl \<lparr>Op = ''open'', Path = p_base, Err = ErrNotExist\<rparr>)"
proof -
  have "fs_ReadFile edited p_base = Inr c_noext"
    by (simp add: fs_ReadFile_def fs_Open_def ValidPath_p_base edited_def)
  moreover have "map_option fst (Open (run testdata [CallName p_base, Mutate edited]) n_base edited) =
     Some (Inr (File c_noext))"
    unfolding run_Name_base_edited run_Hash_base_edited
    by (simp add: Open_hit openBacking_def fs_Open_def ValidPath_p_base edited_def)
  moreover have "map_option fst (Open (run testdata [CallName p_base, Mutate removed]) n_base removed) =
     Some (Inl \<lparr>Op = ''open'', Path = p_base, Err = ErrNotExist\<rparr>)"
    unfolding run_Name_base_removed
    by (simp add: Open_hit openBacking_def fs_Open_def ValidPath_p_base removed_def)
  moreover have "base (run testdata [CallName p_base, Mutate edited]) n_base = Some p_base"
    unfolding run_Name_base_edited run_Hash_base_edited by simp
  ultimately show ?thesis
    using candidate_n_base digest_noext by simp
qed

subsection \<open>C7: digest twice\<close>

text \<open>
  C7, as amended. If digest(p) returns a non-empty token, or the path was cached before,
  a second call returns the same token and leaves the adapter as it is: no call is made
  on the backing store. If the first call fails on a path that is not cached, nothing is
  stored: the second call reads the backing store again, and returns the empty token
  again when the store is as it was.
\<close>

theorem Hash_twice:
  assumes "Hash f p = Some (d, f1)"
  shows "(hash f p \<noteq> None \<or> d \<noteq> [] \<longrightarrow> Hash f1 p = Some (d, f1)) \<and>
         (hash f p = None \<and> d = [] \<longrightarrow>
            Hash f1 p = Some ([], f1\<lparr>io := io f1 @ [ReadFileCall p]\<rparr>))"
  using assms
proof (cases rule: Hash_cases)
  case hit
  then show ?thesis by (simp add: Hash_hit)
next
  case fail
  have "hash f1 p = None" using fail by simp
  moreover have "fst (makeHash f1 p) = fst (makeHash f p)"
    by (simp add: makeHash_fst fail(4))
  then have "fst (makeHash f1 p) = []"
    using fail(2) by simp
  ultimately show ?thesis using fail by (simp add: Hash_miss Let_def)
next
  case (new c)
  have "d \<noteq> []" using new(4) is_digest_nonempty [OF is_digest_Sum256, of c] by simp
  moreover have "hash f1 p = Some d" using new(5) by simp
  ultimately show ?thesis by (simp add: Hash_hit)
qed

text \<open>
  The theorem on the test suite: the second call for \<^verbatim>\<open>testdata/base.ext\<close> changes
  nothing, and the second call for \<^verbatim>\<open>not-found\<close> adds a read.
\<close>

theorem Hash_twice_witness:
  "Hash (New testdata) p_base = Some (d_base, run testdata [CallHash p_base]) \<and>
   Hash (run testdata [CallHash p_base]) p_base = Some (d_base, run testdata [CallHash p_base]) \<and>
   hash (New testdata) p_missing = None \<and>
   Hash (New testdata) p_missing = Some ([], run testdata [CallHash p_missing]) \<and>
   Hash (run testdata [CallHash p_missing]) p_missing =
     Some ([], (run testdata [CallHash p_missing])
                 \<lparr>io := io (run testdata [CallHash p_missing]) @ [ReadFileCall p_missing]\<rparr>)"
proof -
  have h: "Hash (New testdata) p_base = Some (d_base, run testdata [CallHash p_base])"
    by (simp add: Hash_base run_Hash_base)
  have u: "hash (New testdata) p_missing = None" by (simp add: New_def)
  have m: "Hash (New testdata) p_missing = Some ([], run testdata [CallHash p_missing])"
    by (simp add: Hash_missing run_Hash_missing)
  show ?thesis using h u m Hash_twice [OF h] Hash_twice [OF m] by simp
qed

text \<open>
  C7 fails as stated. For the path \<^verbatim>\<open>not-found\<close> of the test suite both calls return the
  empty token, and the second call reads the backing store again.
\<close>

theorem failed_Hash_reads_again:
  "Hash (New testdata) p_missing = Some ([], run testdata [CallHash p_missing]) \<and>
   io (run testdata [CallHash p_missing]) = [ReadFileCall p_missing] \<and>
   Hash (run testdata [CallHash p_missing]) p_missing =
     Some ([], run testdata [CallHash p_missing, CallHash p_missing]) \<and>
   io (run testdata [CallHash p_missing, CallHash p_missing]) =
     [ReadFileCall p_missing, ReadFileCall p_missing]"
proof -
  have "run testdata [CallHash p_missing, CallHash p_missing] =
      exec (CallHash p_missing) (run testdata [CallHash p_missing])"
    by (simp add: run_def)
  then have "run testdata [CallHash p_missing, CallHash p_missing] =
     \<lparr>fs = testdata, hash = Map.empty, base = Map.empty,
      io = [ReadFileCall p_missing, ReadFileCall p_missing]\<rparr>"
    by (simp add: Hash_missing_again)
  then show ?thesis
    by (simp add: Hash_missing_again) (simp add: Hash_missing run_Hash_missing)
qed

subsection \<open>C8: digests are tokens of 64 hexadecimal characters\<close>



subsection \<open>C9: a failed call leaves the caches alone\<close>




subsection \<open>C10: open never panics\<close>

text \<open>
  C10, as amended. None of the three operations panics on a slice bound, in any state
  and for any name (the model has the panic: slicing the empty string from index 1 is
  \<open>None\<close>). An extension is empty or begins with a dot. For a requested name that misses
  the reverse-name cache, ends in a dot and has no further extension before that dot,
  the candidate digest is the empty string and open fails with the not-found error.
  A name that ends in a dot and has a further extension before it takes that extension
  as its digest slot, and open can succeed.
\<close>

theorem Open_never_panics:
  "Hash f name \<noteq> None \<and> Name f name \<noteq> None \<and> Open f name later \<noteq> None \<and>
   slice_from [] 1 = None \<and>
   (Ext name = [] \<or> (\<exists>s. Ext name = CHR ''.'' # s)) \<and>
   (base f name = None \<and> Ext name = ''.'' \<and> Ext (take (length name - 1) name) = [] \<longrightarrow>
      candidate name = Some (take (length name - 1) name, []) \<and>
      (\<exists>f'. Open f name later = Some (Inl (NotExist name), f')))"
proof -
  have shape: "Ext name = [] \<or> (\<exists>s. Ext name = CHR ''.'' # s)"
    using Ext_shape [of name] by blast
  have dot: "candidate name = Some (take (length name - 1) name, []) \<and>
      (\<exists>f'. Open f name later = Some (Inl (NotExist name), f'))"
    if "base f name = None \<and> Ext name = ''.'' \<and> Ext (take (length name - 1) name) = []"
  proof -
    have c: "candidate name = Some (take (length name - 1) name, [])"
      using that by (simp add: candidate_def Let_def)
    then show ?thesis using that by (auto simp: Open_miss Let_def)
  qed
  show ?thesis
    using Hash_total [of f name] Name_total [of f name] Open_total [of f name later] shape dot
    by (simp add: slice_from_def)
qed

text \<open>The theorem on \<^verbatim>\<open>testdata/noext.\<close>, on the fresh adapter of the test suite.\<close>

theorem Open_never_panics_witness:
  "base (New testdata) n_trailing = None \<and> Ext n_trailing = ''.'' \<and>
   Ext (take (length n_trailing - 1) n_trailing) = [] \<and>
   candidate n_trailing = Some (p_noext, []) \<and>
   (\<exists>f'. Open (New testdata) n_trailing testdata = Some (Inl (NotExist n_trailing), f'))"
proof -
  have b: "base (New testdata) n_trailing = None" by (simp add: New_def)
  have e: "Ext n_trailing = ''.''" by code_simp
  have t: "take (length n_trailing - 1) n_trailing = p_noext" by simp
  have e2: "Ext (take (length n_trailing - 1) n_trailing) = []"
    unfolding t by (rule Ext_p_noext)
  show ?thesis
    using b e e2 Open_never_panics [of "New testdata" n_trailing testdata] unfolding t by simp
qed

text \<open>
  C10 fails as stated. In a tree that holds a file \<^verbatim>\<open>testdata/base.\<close>, the requested name
  \<^verbatim>\<open>testdata/base.d476....\<close> has the bare dot as its final extension; the candidate digest
  is the token \<^verbatim>\<open>d476...\<close>, not the empty string, and open succeeds.
\<close>

theorem Open_trailing_dot_succeeds:
  "Ext n_dot = ''.'' \<and> candidate n_dot = Some (p_dot, d_base) \<and>
   base (New dotted) n_dot = None \<and>
   map_option fst (Open (New dotted) n_dot dotted) = Some (Inr (File c_base))"
proof -
  have "Ext n_dot = ''.''" by code_simp
  moreover have "map_option fst (Open (New dotted) n_dot dotted) = Some (Inr (File c_base))"
    by (simp add: New_def Open_miss candidate_n_dot makeHash_fst ValidPath_p_dot dotted_def
          digest_base openBacking_def fs_Open_def Let_def)
  ultimately show ?thesis by (simp add: candidate_n_dot New_def)
qed

end
